theory Spec2Isabelle
  imports Main "HOL-Library.Char_ord" "HOL-Library.List_Lexorder" "HOL-Library.Multiset"
begin

chapter \<open>The program\<close>

section \<open>Strings and numbers as the program sees them\<close>

text \<open>
  A JavaScript string is modelled as a \<^typ>\<open>string\<close>; one \<^typ>\<open>char\<close> stands for one
  UTF-16 code unit below 256. The default \<open>Array.prototype.sort\<close> compares strings
  code unit by code unit, which is the lexicographic order on \<^typ>\<open>char list\<close>.
\<close>

definition digit_char :: "nat \<Rightarrow> char" where
  "digit_char d = char_of (48 + d)"

text \<open>Decimal rendering of a number inside a template literal.\<close>

function string_of_nat :: "nat \<Rightarrow> string" where
  "string_of_nat n =
     (if n < 10 then [digit_char n]
      else string_of_nat (n div 10) @ [digit_char (n mod 10)])"
  by pat_completeness auto

termination
  by (relation "measure id") auto

declare string_of_nat.simps [simp del]

text \<open>\<open>Array.prototype.join\<close> on strings.\<close>

fun join :: "string \<Rightarrow> string list \<Rightarrow> string" where
  "join sep [] = []"
| "join sep [x] = x"
| "join sep (x # y # ys) = x @ sep @ join sep (y # ys)"

text \<open>
  \<open>String.prototype.toLowerCase\<close> on code units below 256: the ASCII capitals and
  the Latin-1 capitals (all of \<open>0xC0..0xDE\<close> but the multiplication sign).
\<close>

definition lower_char :: "char \<Rightarrow> char" where
  "lower_char c =
     (let n = (of_char c :: nat)
      in if (65 \<le> n \<and> n \<le> 90) \<or> (192 \<le> n \<and> n \<le> 222 \<and> n \<noteq> 215)
         then char_of (n + 32) else c)"

definition toLowerCase :: "string \<Rightarrow> string" where
  "toLowerCase s = map lower_char s"

text \<open>
  \<open>String.prototype.trim\<close> removes white space and line terminators at both ends;
  below 256 these are tab, line feed, vertical tab, form feed, carriage return, space and
  the no-break space.
\<close>

definition is_space :: "char \<Rightarrow> bool" where
  "is_space c = ((of_char c :: nat) \<in> {9, 10, 11, 12, 13, 32, 160})"

definition trim :: "string \<Rightarrow> string" where
  "trim s = rev (dropWhile is_space (rev (dropWhile is_space s)))"

section \<open>The parsed document\<close>

text \<open>
  The extractor walks the tree that \<open>DOMParser\<close> returns. An element carries what the
  accessors \<open>tagName\<close>, \<open>classList\<close>, \<open>attributes\<close> (name and value of every
  attribute, \<open>class\<close> included) and \<open>childNodes\<close> return. \<open>node.children\<close> is the
  element children only. \<open>node.parentElement\<close> is passed along with the node.
\<close>

datatype node =
    Element (tagName: string) (classList: "string list")
            (nodeAttributes: "(string \<times> string) list") (childNodes: "node list")
  | TextNode (textContent: string)
  | CommentNode string

fun isElement :: "node \<Rightarrow> bool" where
  "isElement (Element t c a k) = True"
| "isElement n = False"

fun isText :: "node \<Rightarrow> bool" where
  "isText (TextNode s) = True"
| "isText n = False"

fun elementChildren :: "node \<Rightarrow> node list" where
  "elementChildren (Element t c a k) = filter isElement k"
| "elementChildren n = []"

section \<open>Element records\<close>

text \<open>
  One record per element, with the fields of the object literal in \<open>traverseNode\<close>
  (prefixed \<open>el_\<close>, since \<open>id\<close> and \<open>text\<close> are taken). \<open>text\<close> may be
  \<open>undefined\<close> in a record built by hand, hence the option. An object's own string
  keys are kept as an association list in the order \<open>Object.entries\<close> lists them.
\<close>

type_synonym js_object = "(string \<times> string) list"

record element =
  el_id :: string
  el_tag :: string
  el_classes :: "string list"
  el_attributes :: js_object
  el_text :: "string option"
  el_path :: "nat list"
  el_children :: "string list"
  el_isRepeatable :: bool

text \<open>
  Assignment \<open>obj[k] = v\<close> on a plain object. An existing key keeps its place. A new
  key that is an array index (a canonical decimal below \<open>2^32 - 1\<close>) is listed before
  every other key, in ascending numeric order; any other new key goes last. Assigning a
  string to \<open>__proto__\<close> reaches the inherited setter, which ignores it.
\<close>

definition is_digit :: "char \<Rightarrow> bool" where
  "is_digit c = (48 \<le> (of_char c :: nat) \<and> (of_char c :: nat) \<le> 57)"

definition nat_of_digits :: "string \<Rightarrow> nat" where
  "nat_of_digits s = foldl (\<lambda>acc c. 10 * acc + ((of_char c :: nat) - 48)) 0 s"

definition is_array_index :: "string \<Rightarrow> bool" where
  "is_array_index k =
     (k \<noteq> [] \<and> list_all is_digit k \<and> (k = ''0'' \<or> hd k \<noteq> CHR ''0'')
      \<and> nat_of_digits k < 4294967295)"

fun obj_insert_index :: "string \<Rightarrow> string \<Rightarrow> js_object \<Rightarrow> js_object" where
  "obj_insert_index k v [] = [(k, v)]"
| "obj_insert_index k v ((k', v') # rest) =
     (if is_array_index k' \<and> nat_of_digits k' < nat_of_digits k
      then (k', v') # obj_insert_index k v rest
      else (k, v) # (k', v') # rest)"

definition obj_set :: "string \<Rightarrow> string \<Rightarrow> js_object \<Rightarrow> js_object" where
  "obj_set k v obj =
     (if k = ''__proto__'' then obj
      else if k \<in> fst ` set obj then map (\<lambda>(k', v'). if k' = k then (k', v) else (k', v')) obj
      else if is_array_index k then obj_insert_index k v obj
      else obj @ [(k, v)])"

section \<open>The extractor\<close>

subsection \<open>Repeatability\<close>

text \<open>
  \<open>isRepeatableElement(node)\<close>, with \<open>node.parentElement\<close> as the first argument
  (\<open>None\<close> for \<open>null\<close>).
\<close>

definition classKey :: "node \<Rightarrow> string" where
  "classKey n = join '' '' (sort (classList n))"

definition repeatableTags :: "string list" where
  "repeatableTags = [''span'', ''a'', ''button'', ''div'', ''article'', ''section'']"

definition isRepeatableElement :: "node option \<Rightarrow> node \<Rightarrow> bool" where
  "isRepeatableElement parent node =
     (let tag = toLowerCase (tagName node) in
      if tag = ''li'' then True
      else if (case parent of
                 None \<Rightarrow> False
               | Some p \<Rightarrow>
                   (let siblings = filter (\<lambda>child. tagName child = tagName node) (elementChildren p)
                    in if length siblings > 1
                       then (let nodeClasses = classKey node;
                                 similarSiblings = filter (\<lambda>sibling. classKey sibling = nodeClasses) siblings
                             in length similarSiblings > 1)
                       else False))
      then True
      else if tag \<in> set repeatableTags \<and> parent \<noteq> None
              \<and> toLowerCase (tagName (the parent)) \<in> set [''ul'', ''ol'', ''nav'', ''menu'']
      then True
      else False)"

subsection \<open>The traversal\<close>

text \<open>
  \<open>traverseNode\<close> appends to the array \<open>elements\<close> of the enclosing call; the array is
  threaded through as state. The record is pushed before the children are visited and its
  \<open>children\<close> field is assigned afterwards, on the object already in the array: that is
  the update at \<open>currentIndex\<close>. The loop over \<open>node.children\<close> is \<open>traverseChildren\<close>,
  which carries \<open>childElements\<close>.
\<close>

definition directText :: "node \<Rightarrow> string" where
  "directText node =
     join '' '' (filter (\<lambda>t. length t > 0)
                  (map (\<lambda>child. trim (textContent child))
                     (filter isText (childNodes node))))"

definition collectAttributes :: "node \<Rightarrow> js_object" where
  "collectAttributes node =
     foldl (\<lambda>obj (name, val). if name \<noteq> ''class'' then obj_set name val obj else obj)
       [] (nodeAttributes node)"

definition newElement :: "node option \<Rightarrow> node \<Rightarrow> nat list \<Rightarrow> nat \<Rightarrow> element" where
  "newElement parent node path n =
     \<lparr> el_id = ''element-'' @ string_of_nat n,
       el_tag = toLowerCase (tagName node),
       el_classes = classList node,
       el_attributes = collectAttributes node,
       el_text = Some (let textContent = directText node
                       in if textContent \<noteq> [] then textContent else []),
       el_path = path @ [n],
       el_children = [],
       el_isRepeatable = isRepeatableElement parent node \<rparr>"

function traverseNode ::
    "node option \<Rightarrow> node \<Rightarrow> nat list \<Rightarrow> element list \<Rightarrow> element option \<times> element list"
  and traverseChildren ::
    "node \<Rightarrow> node list \<Rightarrow> nat list \<Rightarrow> string list \<Rightarrow> element list \<Rightarrow> string list \<times> element list"
where
  "traverseNode parent (Element t c a k) path elements =
     (let node = Element t c a k;
          element = newElement parent node path (length elements);
          elements1 = elements @ [element];
          currentIndex = length elements1 - 1;
          (childElements, elements2) =
             traverseChildren node (elementChildren node) (path @ [currentIndex]) [] elements1;
          element' = element\<lparr>el_children := childElements\<rparr>
      in (Some element', elements2[currentIndex := element']))"
| "traverseNode parent (TextNode s) path elements = (None, elements)"
| "traverseNode parent (CommentNode s) path elements = (None, elements)"
| "traverseChildren node [] path childElements elements = (childElements, elements)"
| "traverseChildren node (child # rest) path childElements elements =
     (case traverseNode (Some node) child path elements of
        (Some childSchema, elements') \<Rightarrow>
           traverseChildren node rest path (childElements @ [el_id childSchema]) elements'
      | (None, elements') \<Rightarrow>
           traverseChildren node rest path childElements elements')"
  by pat_completeness auto

termination
  by (relation "measure (\<lambda>x. case x of
          Inl (p, n, pa, es) \<Rightarrow> 2 * size n
        | Inr (n, cs, pa, ce, es) \<Rightarrow> 2 * size_list size cs + 1)")
     (auto simp: size_list_conv_sum_list less_Suc_eq_le
           intro!: add_le_mono sum_list_filter_le_nat)

text \<open>
  \<open>parseHTMLToSchema\<close>: the document parser is a browser facility, so it is a
  parameter, \<open>parser s\<close> being \<open>doc.body\<close> of the document parsed from the string \<open>s\<close>.
  The argument \<open>html\<close> reaches \<open>parseFromString\<close> unchecked; as for every string
  parameter of the DOM interfaces, \<open>null\<close> and \<open>undefined\<close> are converted there to the
  strings \<open>null\<close> and \<open>undefined\<close>. Elements directly under the body are visited with
  the default empty path; their parent element is the body.
\<close>

datatype html_arg = Null | Undefined | Html string

fun toDOMString :: "html_arg \<Rightarrow> string" where
  "toDOMString Null = ''null''"
| "toDOMString Undefined = ''undefined''"
| "toDOMString (Html s) = s"

definition parsedBody :: "(string \<Rightarrow> node) \<Rightarrow> html_arg \<Rightarrow> node" where
  "parsedBody parser html = parser (toDOMString html)"

fun traverseTop :: "node \<Rightarrow> node list \<Rightarrow> element list \<Rightarrow> element list" where
  "traverseTop body [] elements = elements"
| "traverseTop body (child # rest) elements =
     traverseTop body rest (snd (traverseNode (Some body) child [] elements))"

definition extractBody :: "node \<Rightarrow> element list" where
  "extractBody body = traverseTop body (elementChildren body) []"

definition parseHTMLToSchema :: "(string \<Rightarrow> node) \<Rightarrow> html_arg \<Rightarrow> element list" where
  "parseHTMLToSchema parser html = extractBody (parsedBody parser html)"

section \<open>The serializer\<close>

subsection \<open>Escaping and name validation\<close>

text \<open>The double quote, and \<open>str.replace(/c/g, r)\<close> for a single character \<open>c\<close>.\<close>

abbreviation dq :: string where
  "dq \<equiv> [CHR 0x22]"

definition replace_all :: "char \<Rightarrow> string \<Rightarrow> string \<Rightarrow> string" where
  "replace_all c r s = concat (map (\<lambda>x. if x = c then r else [x]) s)"

definition escapeHTML :: "string \<Rightarrow> string" where
  "escapeHTML str =
     (if str = [] then []
      else replace_all (CHR 0x27) ''&#039;''
            (replace_all (CHR 0x22) ''&quot;''
              (replace_all CHR ''>'' ''&gt;''
                (replace_all CHR ''<'' ''&lt;''
                  (replace_all CHR ''&'' ''&amp;'' str)))))"

text \<open>
  The pattern \<open>/^[a-z][a-z0-9\-]*$/i\<close>: an ASCII letter of either case, then ASCII
  letters, digits and hyphens up to the end of the string.
\<close>

definition is_alpha :: "char \<Rightarrow> bool" where
  "is_alpha c =
     (let n = (of_char c :: nat) in (97 \<le> n \<and> n \<le> 122) \<or> (65 \<le> n \<and> n \<le> 90))"

definition is_name_char :: "char \<Rightarrow> bool" where
  "is_name_char c = (is_alpha c \<or> is_digit c \<or> c = CHR ''-'')"

fun matchesNamePattern :: "string \<Rightarrow> bool" where
  "matchesNamePattern [] = False"
| "matchesNamePattern (c # cs) = (is_alpha c \<and> list_all is_name_char cs)"

definition isValidTagName :: "string \<Rightarrow> bool" where
  "isValidTagName tag = matchesNamePattern tag"

text \<open>
  \<open>xs.map(f).join(sep)\<close>, where a call of \<open>f\<close> may fail to return: then the
  whole expression does not return either.
\<close>

definition mapJoin :: "('a \<Rightarrow> string option) \<Rightarrow> string \<Rightarrow> 'a list \<Rightarrow> string option" where
  "mapJoin f sep xs = map_option (join sep) (those (map f xs))"

subsection \<open>\<open>schemaToHTML\<close> with escaping\<close>

text \<open>
  The repository holds two copies of \<open>schemaToHTML\<close>. This one is the copy with
  \<open>escapeHTML\<close> and \<open>isValidTagName\<close>.

  \<open>buildElement\<close> calls itself on the ids in \<open>children\<close> and nothing bounds the depth,
  so the first argument is the number of nested calls still available; \<open>None\<close> means
  that the call did not return. The warning that \<open>buildElement\<close> logs for an invalid
  tag changes no result and is left out.
\<close>

definition findElement :: "element list \<Rightarrow> string \<Rightarrow> element option" where
  "findElement elements elementId = List.find (\<lambda>el. el_id el = elementId) elements"

definition pushAttributes :: "string list \<Rightarrow> js_object \<Rightarrow> string list" where
  "pushAttributes attrs entries =
     foldl (\<lambda>attrs (key, val).
              if matchesNamePattern key
              then attrs @ [escapeHTML key @ ''='' @ dq @ escapeHTML val @ dq]
              else attrs)
       attrs entries"

definition buildAttrs :: "element \<Rightarrow> string list" where
  "buildAttrs element =
     pushAttributes
       (if length (el_classes element) > 0
        then [''class='' @ dq @ join '' '' (map escapeHTML (el_classes element)) @ dq]
        else [])
       (el_attributes element)"

definition attrString :: "string list \<Rightarrow> string" where
  "attrString attrs = (if length attrs > 0 then '' '' @ join '' '' attrs else [])"

definition textOrEmpty :: "element \<Rightarrow> string" where
  "textOrEmpty element = (case el_text element of None \<Rightarrow> [] | Some t \<Rightarrow> t)"

fun buildElement :: "nat \<Rightarrow> element list \<Rightarrow> string \<Rightarrow> string option" where
  "buildElement 0 elements elementId = None"
| "buildElement (Suc depth) elements elementId =
     (case findElement elements elementId of
        None \<Rightarrow> Some []
      | Some element \<Rightarrow>
          if \<not> isValidTagName (el_tag element) then Some []
          else
            (case mapJoin (buildElement depth elements) [] (el_children element) of
               None \<Rightarrow> None
             | Some childrenHTML \<Rightarrow>
                 Some (''<'' @ el_tag element @ attrString (buildAttrs element) @ ''>''
                       @ escapeHTML (textOrEmpty element) @ childrenHTML
                       @ ''</'' @ el_tag element @ ''>'')))"

definition childIds :: "element list \<Rightarrow> string set" where
  "childIds elements = set (concat (map el_children elements))"

definition rootElements :: "element list \<Rightarrow> element list" where
  "rootElements elements = filter (\<lambda>el. el_id el \<notin> childIds elements) elements"

text \<open>The argument is \<open>None\<close> for \<open>null\<close> or \<open>undefined\<close>.\<close>

definition schemaToHTML :: "nat \<Rightarrow> element list option \<Rightarrow> string option" where
  "schemaToHTML depth elements =
     (case elements of
        None \<Rightarrow> Some []
      | Some els \<Rightarrow>
          if length els = 0 then Some []
          else mapJoin (\<lambda>el. buildElement depth els (el_id el)) [CHR 0x0A] (rootElements els))"

subsection \<open>\<open>schemaToHTML\<close> without escaping\<close>

text \<open>
  The copy in \<open>src/utils/schemaParser.js\<close>: the same walk, with tag, class tokens,
  attribute keys and values, and text emitted as they are.
\<close>

definition pushAttributes_plain :: "string list \<Rightarrow> js_object \<Rightarrow> string list" where
  "pushAttributes_plain attrs entries =
     foldl (\<lambda>attrs (key, val). attrs @ [key @ ''='' @ dq @ val @ dq]) attrs entries"

definition buildAttrs_plain :: "element \<Rightarrow> string list" where
  "buildAttrs_plain element =
     pushAttributes_plain
       (if length (el_classes element) > 0
        then [''class='' @ dq @ join '' '' (el_classes element) @ dq]
        else [])
       (el_attributes element)"

fun buildElement_plain :: "nat \<Rightarrow> element list \<Rightarrow> string \<Rightarrow> string option" where
  "buildElement_plain 0 elements elementId = None"
| "buildElement_plain (Suc depth) elements elementId =
     (case findElement elements elementId of
        None \<Rightarrow> Some []
      | Some element \<Rightarrow>
          (case mapJoin (buildElement_plain depth elements) [] (el_children element) of
             None \<Rightarrow> None
           | Some childrenHTML \<Rightarrow>
               Some (''<'' @ el_tag element @ attrString (buildAttrs_plain element) @ ''>''
                     @ textOrEmpty element @ childrenHTML
                     @ ''</'' @ el_tag element @ ''>'')))"

definition schemaToHTML_plain :: "nat \<Rightarrow> element list option \<Rightarrow> string option" where
  "schemaToHTML_plain depth elements =
     (case elements of
        None \<Rightarrow> Some []
      | Some els \<Rightarrow>
          if length els = 0 then Some []
          else mapJoin (\<lambda>el. buildElement_plain depth els (el_id el)) [CHR 0x0A] (rootElements els))"

section \<open>The field projector\<close>

text \<open>
  A field descriptor; \<open>type\<close> is \<open>field_type\<close> and \<open>readonly\<close> is \<open>None\<close> where the
  object literal has no such property. The function is the same in both copies.
\<close>

record field =
  field_name :: string
  field_label :: string
  field_type :: string
  field_value :: string
  field_readonly :: "bool option"

definition tagField :: "element \<Rightarrow> field" where
  "tagField element =
     \<lparr> field_name = ''tag'', field_label = ''Tag'', field_type = ''text'',
       field_value = el_tag element, field_readonly = Some True \<rparr>"

definition textField :: "string \<Rightarrow> field" where
  "textField t =
     \<lparr> field_name = ''text'', field_label = ''Text Content'', field_type = ''textarea'',
       field_value = t, field_readonly = None \<rparr>"

definition classesField :: "element \<Rightarrow> field" where
  "classesField element =
     \<lparr> field_name = ''classes'', field_label = ''Classes'', field_type = ''text'',
       field_value = join '' '' (el_classes element), field_readonly = None \<rparr>"

definition attrField :: "string \<times> string \<Rightarrow> field" where
  "attrField kv =
     \<lparr> field_name = ''attr_'' @ fst kv, field_label = fst kv, field_type = ''text'',
       field_value = snd kv, field_readonly = None \<rparr>"

definition generateFormFields :: "element \<Rightarrow> field list" where
  "generateFormFields element =
     (let fields = [];
          fields = fields @ [tagField element];
          fields = (case el_text element of
                      None \<Rightarrow> fields
                    | Some t \<Rightarrow> fields @ [textField t]);
          fields = fields @ [classesField element]
      in foldl (\<lambda>fields kv. fields @ [attrField kv]) fields (el_attributes element))"

chapter \<open>What the claims speak of\<close>

section \<open>Escaped text and emitted markup\<close>


fun startsWith :: "string \<Rightarrow> string \<Rightarrow> bool" where
  "startsWith s [] = True"
| "startsWith [] (p # ps) = False"
| "startsWith (c # cs) (p # ps) = (c = p \<and> startsWith cs ps)"




section \<open>The reference graph of a collection\<close>

text \<open>An edge leads from the id of a record to each id in its \<open>children\<close>.\<close>

definition childEdges :: "element list \<Rightarrow> (string \<times> string) set" where
  "childEdges elements =
     set (concat (map (\<lambda>el. map (Pair (el_id el)) (el_children el)) elements))"

section \<open>Document order\<close>

text \<open>
  The number of elements in a subtree, and the elements of a subtree in depth-first
  pre-order, each with its parent element.
\<close>

fun countElements :: "node \<Rightarrow> nat" where
  "countElements (Element t c a k) = Suc (sum_list (map countElements k))"
| "countElements n = 0"

fun preorder :: "node option \<Rightarrow> node \<Rightarrow> (node option \<times> node) list" where
  "preorder parent (Element t c a k) =
     (parent, Element t c a k) # concat (map (preorder (Some (Element t c a k))) k)"
| "preorder parent n = []"

text \<open>The elements below the body, in document order.\<close>

definition documentOrder :: "node \<Rightarrow> (node option \<times> node) list" where
  "documentOrder body = concat (map (preorder (Some body)) (elementChildren body))"

text \<open>
  The pre-order positions of sibling nodes when the first of them stands at position
  \<open>i\<close>: each element takes the position after the subtree of its predecessor.
\<close>

fun childOffsets :: "nat \<Rightarrow> node list \<Rightarrow> nat list" where
  "childOffsets i [] = []"
| "childOffsets i (c # cs) =
     (if isElement c then [i] else []) @ childOffsets (i + countElements c) cs"

text \<open>
  The positions of the direct element children of the node at position \<open>k\<close> of a
  pre-order list.
\<close>

definition childPositions :: "(node option \<times> node) list \<Rightarrow> nat \<Rightarrow> nat list" where
  "childPositions L k = childOffsets (Suc k) (elementChildren (snd (L ! k)))"

text \<open>
  The record that the element \<open>n\<close> with parent \<open>p\<close> gets at position \<open>j\<close>: the fields
  that \<open>newElement\<close> computes, with every child's id in \<open>children\<close>.
\<close>

definition recordFor :: "nat \<Rightarrow> node option \<times> node \<Rightarrow> element \<Rightarrow> bool" where
  "recordFor j pn e =
     (\<exists>path. e = (newElement (fst pn) (snd pn) path j)
                   \<lparr>el_children := map (\<lambda>i. ''element-'' @ string_of_nat i)
                                     (childOffsets (Suc j) (elementChildren (snd pn)))\<rparr>)"

section \<open>Class lists as the document gives them\<close>

text \<open>
  \<open>classList\<close> is a token set: it holds no token twice, and a token is not empty and
  contains no space. A document is in order when this holds for every element in it.
\<close>

definition tokensOk :: "node \<Rightarrow> bool" where
  "tokensOk n =
     (distinct (classList n) \<and> list_all (\<lambda>tok. tok \<noteq> [] \<and> CHR '' '' \<notin> set tok) (classList n))"

fun domTokensOk :: "node \<Rightarrow> bool" where
  "domTokensOk (Element t c a k) =
     (tokensOk (Element t c a k) \<and> (\<forall>x\<in>set k. domTokensOk x))"
| "domTokensOk n = True"

section \<open>Notions used in the proofs\<close>

text \<open>What the five replacements of \<open>escapeHTML\<close> do to one character.\<close>

definition escapeChar :: "char \<Rightarrow> string" where
  "escapeChar c =
     (if c = CHR ''&'' then ''&amp;'' else if c = CHR ''<'' then ''&lt;''
      else if c = CHR ''>'' then ''&gt;'' else if c = CHR 0x22 then ''&quot;''
      else if c = CHR 0x27 then ''&#039;'' else [c])"

definition recordsFor :: "nat \<Rightarrow> (node option \<times> node) list \<Rightarrow> element list \<Rightarrow> bool" where
  "recordsFor base pns recs =
     (length recs = length pns
      \<and> list_all (\<lambda>k. recordFor (base + k) (pns ! k) (recs ! k)) [0..<length pns])"

text \<open>
  Position \<open>k\<close> of a pre-order list is in order when the child positions lie after \<open>k\<close>
  and inside the list, and hold exactly the element children of the node at \<open>k\<close>, each
  with that node as its parent.
\<close>

definition positionOk :: "(node option \<times> node) list \<Rightarrow> nat \<Rightarrow> bool" where
  "positionOk L k =
     (list_all (\<lambda>j. k < j \<and> j < length L) (childPositions L k)
      \<and> map (\<lambda>j. L ! j) (childPositions L k) =
          map (Pair (Some (snd (L ! k)))) (elementChildren (snd (L ! k))))"

definition allChildPositions :: "(node option \<times> node) list \<Rightarrow> nat list" where
  "allChildPositions L = concat (map (childPositions L) [0..<length L])"

section \<open>A document parser for one text element\<close>

text \<open>
  Modelled from the spec: the document parser is a facility of the browser and not part
  of the repository; section 6 of the spec asks of it what browsers do, entity decoding
  included. This model reads markup of the shape \<^verbatim>\<open><name>text</name>\<close> (one element
  without attributes whose content is text) and markup without any tag (text alone); in
  the text it decodes the five character references that \<open>escapeHTML\<close> writes. Other
  markup is outside the model, which returns an empty body for it. \<open>tagName\<close> is in
  upper case, as in an HTML document.
\<close>

fun decodeEntities :: "string \<Rightarrow> string" where
  "decodeEntities [] = []"
| "decodeEntities (c # cs) =
     (if c = CHR ''&'' \<and> startsWith cs ''amp;'' then CHR ''&'' # decodeEntities (drop 4 cs)
      else if c = CHR ''&'' \<and> startsWith cs ''lt;'' then CHR ''<'' # decodeEntities (drop 3 cs)
      else if c = CHR ''&'' \<and> startsWith cs ''gt;'' then CHR ''>'' # decodeEntities (drop 3 cs)
      else if c = CHR ''&'' \<and> startsWith cs ''quot;'' then CHR 0x22 # decodeEntities (drop 5 cs)
      else if c = CHR ''&'' \<and> startsWith cs ''#039;'' then CHR 0x27 # decodeEntities (drop 5 cs)
      else c # decodeEntities cs)"

definition upper_char :: "char \<Rightarrow> char" where
  "upper_char c =
     (let n = (of_char c :: nat)
      in if 97 \<le> n \<and> n \<le> 122 then char_of (n - 32) else c)"

definition textElementParser :: "string \<Rightarrow> node" where
  "textElementParser html =
     (case html of
        [] \<Rightarrow> Element ''BODY'' [] [] []
      | c # rest \<Rightarrow>
          (let name = takeWhile (\<lambda>x. x \<noteq> CHR ''>'') rest;
               content = takeWhile (\<lambda>x. x \<noteq> CHR ''<'') (drop (Suc (length name)) rest);
               closing = drop (Suc (length name) + length content) rest
           in if c = CHR ''<'' \<and> matchesNamePattern name \<and> closing = ''</'' @ name @ ''>''
              then Element ''BODY'' [] []
                     [Element (map upper_char name) [] []
                        (if content = [] then [] else [TextNode (decodeEntities content)])]
              else if CHR ''<'' \<notin> set html
              then Element ''BODY'' [] [] [TextNode (decodeEntities html)]
              else Element ''BODY'' [] [] []))"

section \<open>Examples\<close>


text \<open>
  A \<open>div\<close> with three children, the second of which has the tag \<open>123invalid\<close> and a
  child of its own.
\<close>

definition guardRecords :: "element list" where
  "guardRecords =
     [\<lparr> el_id = ''element-0'', el_tag = ''div'', el_classes = [], el_attributes = [],
        el_text = Some [], el_path = [0],
        el_children = [''element-1'', ''element-2'', ''element-4''], el_isRepeatable = False \<rparr>,
      \<lparr> el_id = ''element-1'', el_tag = ''span'', el_classes = [], el_attributes = [],
        el_text = Some ''a'', el_path = [0, 1], el_children = [], el_isRepeatable = True \<rparr>,
      \<lparr> el_id = ''element-2'', el_tag = ''123invalid'', el_classes = [], el_attributes = [],
        el_text = Some ''b'', el_path = [0, 2], el_children = [''element-3''],
        el_isRepeatable = False \<rparr>,
      \<lparr> el_id = ''element-3'', el_tag = ''em'', el_classes = [], el_attributes = [],
        el_text = Some ''c'', el_path = [0, 2, 3], el_children = [], el_isRepeatable = False \<rparr>,
      \<lparr> el_id = ''element-4'', el_tag = ''span'', el_classes = [], el_attributes = [],
        el_text = Some ''d'', el_path = [0, 4], el_children = [], el_isRepeatable = True \<rparr>]"

text \<open>A root that leads into a cycle.\<close>

definition cyclicRecords :: "element list" where
  "cyclicRecords =
     [\<lparr> el_id = ''r'', el_tag = ''div'', el_classes = [], el_attributes = [],
        el_text = Some [], el_path = [0], el_children = [''a''], el_isRepeatable = False \<rparr>,
      \<lparr> el_id = ''a'', el_tag = ''p'', el_classes = [], el_attributes = [],
        el_text = Some [], el_path = [0, 1], el_children = [''b''], el_isRepeatable = False \<rparr>,
      \<lparr> el_id = ''b'', el_tag = ''p'', el_classes = [], el_attributes = [],
        el_text = Some [], el_path = [0, 1, 2], el_children = [''a''], el_isRepeatable = False \<rparr>]"

text \<open>
  The parsed body of
  \<^verbatim>\<open><div><a class="x y" href="#">1</a> <a class="y x">2</a><a class="z" id="q">3</a></div><ul><li></li></ul>\<close>
\<close>

definition exampleBody :: node where
  "exampleBody =
     Element ''BODY'' [] []
       [Element ''DIV'' [] []
          [Element ''A'' [''x'', ''y''] [(''class'', ''x y''), (''href'', ''#'')] [TextNode ''1''],
           TextNode '' '',
           Element ''A'' [''y'', ''x''] [(''class'', ''y x'')] [TextNode ''2''],
           Element ''A'' [''z''] [(''class'', ''z''), (''id'', ''q'')] [TextNode ''3'']],
        Element ''UL'' [] [] [Element ''LI'' [] [] []]]"

text \<open>The markup of the example document.\<close>

definition exampleMarkup :: string where
  "exampleMarkup =
     ''<div><a class='' @ dq @ ''x y'' @ dq @ '' href='' @ dq @ ''#'' @ dq @ ''>1</a> <a class=''
     @ dq @ ''y x'' @ dq @ ''>2</a><a class='' @ dq @ ''z'' @ dq @ '' id='' @ dq @ ''q'' @ dq
     @ ''>3</a></div><ul><li></li></ul>''"

chapter \<open>Lemmas\<close>

section \<open>The serializer\<close>

subsection \<open>Loops that push\<close>

lemma foldl_snoc_map: "foldl (\<lambda>acc x. acc @ [f x]) acc xs = acc @ map f xs"
  by (induction xs arbitrary: acc) auto


lemma generateFormFields_closed:
  "generateFormFields e =
     tagField e # (case el_text e of None \<Rightarrow> [] | Some t \<Rightarrow> [textField t])
       @ classesField e # map attrField (el_attributes e)"
  by (simp add: generateFormFields_def foldl_snoc_map split: option.split)

subsection \<open>Escaping, character by character\<close>

lemma replace_all_Nil [simp]: "replace_all c r [] = []"
  by (simp add: replace_all_def)

lemma replace_all_Cons [simp]:
  "replace_all c r (x # xs) = (if x = c then r else [x]) @ replace_all c r xs"
  by (simp add: replace_all_def)

lemma replace_all_append [simp]:
  "replace_all c r (xs @ ys) = replace_all c r xs @ replace_all c r ys"
  by (simp add: replace_all_def)

lemma escapeHTML_Nil [simp]: "escapeHTML [] = []"
  by (simp add: escapeHTML_def)

lemma escapeHTML_Cons: "escapeHTML (c # s) = escapeChar c @ escapeHTML s"
  by (cases "s = []") (simp_all add: escapeHTML_def escapeChar_def)






subsection \<open>Escaped strings have no raw special character\<close>







subsection \<open>Decoding what \<open>escapeHTML\<close> wrote\<close>

lemma decodeEntities_escapeChar:
  "decodeEntities (escapeChar c @ r) = c # decodeEntities r"
  by (simp add: escapeChar_def)

lemma decodeEntities_escapeHTML: "decodeEntities (escapeHTML s) = s"
  by (induction s) (simp_all add: escapeHTML_Cons decodeEntities_escapeChar del: decodeEntities.simps(2))


subsection \<open>Mapping a call over a list and joining\<close>


lemma those_Some_iff: "those xs = Some ys \<longleftrightarrow> xs = map Some ys"
  by (induction xs arbitrary: ys) (auto split: option.splits)

lemma mapJoin_Some:
  "mapJoin f sep xs = Some r \<longleftrightarrow> (\<exists>parts. map f xs = map Some parts \<and> r = join sep parts)"
  by (auto simp: mapJoin_def those_Some_iff)


lemma mapJoin_mono:
  assumes "\<And>x p. x \<in> set xs \<Longrightarrow> f x = Some p \<Longrightarrow> g x = Some p"
    and "mapJoin f sep xs = Some r"
  shows "mapJoin g sep xs = Some r"
proof -
  from assms(2) obtain parts where p: "map f xs = map Some parts" "r = join sep parts"
    by (auto simp: mapJoin_Some)
  have "map g xs = map Some parts"
  proof (rule nth_equalityI)
    show "length (map g xs) = length (map Some parts)"
      using p(1) by (metis length_map)
  next
    fix k assume "k < length (map g xs)"
    then have k: "k < length xs" by simp
    with p(1) have "f (xs ! k) = Some (parts ! k)" and "k < length parts"
      by (metis nth_map length_map)+
    with k assms(1) [of "xs ! k" "parts ! k"] show "map g xs ! k = map Some parts ! k"
      by simp
  qed
  with p(2) show ?thesis by (auto simp: mapJoin_Some)
qed

lemma mapJoin_total:
  assumes "\<And>x. x \<in> set xs \<Longrightarrow> \<exists>p. f x = Some p"
  shows "\<exists>r. mapJoin f sep xs = Some r"
proof -
  have "\<exists>parts. map f xs = map Some parts"
    using assms
  proof (induction xs)
    case Nil
    then show ?case by simp
  next
    case (Cons x xs)
    then obtain p parts where "f x = Some p" "map f xs = map Some parts"
      by (metis list.set_intros)
    then have "map f (x # xs) = map Some (p # parts)" by simp
    then show ?case by blast
  qed
  then show ?thesis by (auto simp: mapJoin_Some)
qed

subsection \<open>Every returned string is element markup\<close>


subsection \<open>The walk over children returns on an acyclic collection\<close>

lemma acyclic_by_rank:
  fixes f :: "'a \<Rightarrow> nat"
  assumes "\<And>a b. (a, b) \<in> r \<Longrightarrow> f a < f b"
  shows "acyclic r"
proof -
  have "r \<subseteq> inv_image less_than f" using assms by auto
  moreover have "acyclic (inv_image less_than f)"
    by (intro wf_acyclic wf_inv_image wf_less_than)
  ultimately show ?thesis by (rule acyclic_subset [rotated])
qed

lemma findElement_Some:
  "findElement els i = Some e \<Longrightarrow> e \<in> set els \<and> el_id e = i"
  by (auto simp: findElement_def find_Some_iff)

lemma childEdges_iff:
  "(a, c) \<in> childEdges els \<longleftrightarrow> (\<exists>e\<in>set els. el_id e = a \<and> c \<in> set (el_children e))"
  by (auto simp: childEdges_def)

lemma common_depth:
  fixes f :: "nat \<Rightarrow> 'a \<Rightarrow> string option"
  assumes mono: "\<And>d x s. f d x = Some s \<Longrightarrow> f (Suc d) x = Some s"
    and ex: "\<And>x. x \<in> set xs \<Longrightarrow> \<exists>d s. f d x = Some s"
  shows "\<exists>D. \<forall>x\<in>set xs. \<exists>s. f D x = Some s"
proof -
  have up: "f (d + k) x = Some s" if "f d x = Some s" for d k x s
    using that by (induction k) (auto intro: mono)
  show ?thesis
    using ex
  proof (induction xs)
    case Nil
    then show ?case by simp
  next
    case (Cons x xs)
    from Cons.IH Cons.prems obtain D where D: "\<forall>y\<in>set xs. \<exists>s. f D y = Some s"
      by (metis list.set_intros(2))
    from Cons.prems [of x] obtain d s where d: "f d x = Some s" by auto
    have "f (d + D) x = Some s" using up [OF d] .
    moreover have "\<exists>s. f (d + D) y = Some s" if "y \<in> set xs" for y
    proof -
      from D that obtain s' where "f D y = Some s'" by blast
      from up [OF this, of d] show ?thesis by (auto simp: add.commute)
    qed
    ultimately show ?case by (intro exI [of _ "d + D"]) auto
  qed
qed

lemma buildElement_Suc:
  "buildElement depth els i = Some s \<Longrightarrow> buildElement (Suc depth) els i = Some s"
proof (induction depth arbitrary: i s)
  case 0
  then show ?case by simp
next
  case (Suc depth)
  show ?case
  proof (cases "findElement els i")
    case None
    with Suc.prems show ?thesis by simp
  next
    case (Some e)
    show ?thesis
    proof (cases "isValidTagName (el_tag e)")
      case False
      with Some Suc.prems show ?thesis by simp
    next
      case True
      from Suc.prems Some True obtain ch where
        ch: "mapJoin (buildElement depth els) [] (el_children e) = Some ch"
        and s: "s = ''<'' @ el_tag e @ attrString (buildAttrs e) @ ''>''
                  @ escapeHTML (textOrEmpty e) @ ch @ ''</'' @ el_tag e @ ''>''"
        by (auto split: option.splits)
      have "mapJoin (buildElement (Suc depth) els) [] (el_children e) = Some ch"
        using ch by (rule mapJoin_mono [rotated]) (rule Suc.IH)
      with Some True s show ?thesis
        by (subst buildElement.simps) simp
    qed
  qed
qed

lemma buildElement_returns:
  assumes "acyclic (childEdges els)"
  shows "\<exists>d s. buildElement d els i = Some s"
proof -
  have fin: "finite (childEdges els)" by (simp add: childEdges_def)
  have wf: "wf ((childEdges els)\<inverse>)"
    using fin assms by (rule finite_acyclic_wf_converse)
  show ?thesis
    using wf
  proof (induction i rule: wf_induct_rule)
    case (less i)
    show ?case
    proof (cases "findElement els i")
      case None
      then have "buildElement (Suc 0) els i = Some []" by simp
      then show ?thesis by blast
    next
      case (Some e)
      show ?thesis
      proof (cases "isValidTagName (el_tag e)")
        case False
        with Some have "buildElement (Suc 0) els i = Some []" by simp
        then show ?thesis by blast
      next
        case True
        have "\<exists>d s. buildElement d els c = Some s" if "c \<in> set (el_children e)" for c
        proof -
          from findElement_Some [OF Some] that have "(i, c) \<in> childEdges els"
            by (auto simp: childEdges_iff)
          then show ?thesis by (intro less.IH) simp
        qed
        then obtain D where D: "\<forall>c\<in>set (el_children e). \<exists>s. buildElement D els c = Some s"
          using common_depth [of "\<lambda>d. buildElement d els" "el_children e"] buildElement_Suc
          by blast
        then obtain ch where "mapJoin (buildElement D els) [] (el_children e) = Some ch"
          using mapJoin_total [of "el_children e" "buildElement D els" "[]"] by blast
        with Some True have "\<exists>s. buildElement (Suc D) els i = Some s" by simp
        then show ?thesis by blast
      qed
    qed
  qed
qed

lemma buildElement_plain_Suc:
  "buildElement_plain depth els i = Some s \<Longrightarrow> buildElement_plain (Suc depth) els i = Some s"
proof (induction depth arbitrary: i s)
  case 0
  then show ?case by simp
next
  case (Suc depth)
  show ?case
  proof (cases "findElement els i")
    case None
    with Suc.prems show ?thesis by simp
  next
    case (Some e)
    from Suc.prems Some obtain ch where
      ch: "mapJoin (buildElement_plain depth els) [] (el_children e) = Some ch"
      and s: "s = ''<'' @ el_tag e @ attrString (buildAttrs_plain e) @ ''>''
                @ textOrEmpty e @ ch @ ''</'' @ el_tag e @ ''>''"
      by (auto split: option.splits)
    have "mapJoin (buildElement_plain (Suc depth) els) [] (el_children e) = Some ch"
      using ch by (rule mapJoin_mono [rotated]) (rule Suc.IH)
    with Some s show ?thesis
      by (subst buildElement_plain.simps) simp
  qed
qed

lemma buildElement_plain_returns:
  assumes "acyclic (childEdges els)"
  shows "\<exists>d s. buildElement_plain d els i = Some s"
proof -
  have fin: "finite (childEdges els)" by (simp add: childEdges_def)
  have wf: "wf ((childEdges els)\<inverse>)"
    using fin assms by (rule finite_acyclic_wf_converse)
  show ?thesis
    using wf
  proof (induction i rule: wf_induct_rule)
    case (less i)
    show ?case
    proof (cases "findElement els i")
      case None
      then have "buildElement_plain (Suc 0) els i = Some []" by simp
      then show ?thesis by blast
    next
      case (Some e)
      have "\<exists>d s. buildElement_plain d els c = Some s" if "c \<in> set (el_children e)" for c
      proof -
        from findElement_Some [OF Some] that have "(i, c) \<in> childEdges els"
          by (auto simp: childEdges_iff)
        then show ?thesis by (intro less.IH) simp
      qed
      then obtain D where
        D: "\<forall>c\<in>set (el_children e). \<exists>s. buildElement_plain D els c = Some s"
        using common_depth [of "\<lambda>d. buildElement_plain d els" "el_children e"]
              buildElement_plain_Suc
        by blast
      then obtain ch where "mapJoin (buildElement_plain D els) [] (el_children e) = Some ch"
        using mapJoin_total [of "el_children e" "buildElement_plain D els" "[]"] by blast
      with Some have "\<exists>s. buildElement_plain (Suc D) els i = Some s" by simp
      then show ?thesis by blast
    qed
  qed
qed

text \<open>A walk that returns at every root returns with the same output at every larger depth.\<close>

lemma roots_return:
  fixes f :: "nat \<Rightarrow> string \<Rightarrow> string option"
  assumes mono: "\<And>d x s. f d x = Some s \<Longrightarrow> f (Suc d) x = Some s"
    and ex: "\<And>x. \<exists>d s. f d x = Some s"
  shows "\<exists>D out. \<forall>depth\<ge>D. mapJoin (\<lambda>el. f depth (el_id el)) sep roots = Some out"
proof -
  have up: "f d' x = Some s" if "f d x = Some s" "d \<le> d'" for d d' x s
    using that(2) that(1) by (induction rule: dec_induct) (auto intro: mono)
  obtain D where D: "\<forall>el\<in>set roots. \<exists>s. f D (el_id el) = Some s"
    using common_depth [of "\<lambda>d el. f d (el_id el)" roots] mono ex by blast
  then obtain out where out: "mapJoin (\<lambda>el. f D (el_id el)) sep roots = Some out"
    using mapJoin_total [of roots "\<lambda>el. f D (el_id el)" sep] by blast
  have "mapJoin (\<lambda>el. f depth (el_id el)) sep roots = Some out" if "D \<le> depth" for depth
    using out by (rule mapJoin_mono [rotated]) (rule up [OF _ that])
  then show ?thesis by blast
qed

subsection \<open>The serializer on the example collections\<close>

lemmas serializer_eval =
  schemaToHTML_def rootElements_def childIds_def mapJoin_def findElement_def
  isValidTagName_def is_alpha_def is_name_char_def is_digit_def
  buildAttrs_def pushAttributes_def attrString_def textOrEmpty_def escapeHTML_def


lemma schemaToHTML_guardRecords:
  "schemaToHTML 2 (Some guardRecords) = Some ''<div><span>a</span><span>d</span></div>''"
  by (simp add: guardRecords_def serializer_eval numeral_2_eq_2)

lemma acyclic_guardRecords: "acyclic (childEdges guardRecords)"
  by (rule acyclic_by_rank [where f = "\<lambda>s. of_char (last s)"])
     (auto simp: childEdges_def guardRecords_def)

text \<open>
  A collection in which a root leads into a cycle: \<open>r\<close> has the child \<open>a\<close>, \<open>a\<close> the
  child \<open>b\<close> and \<open>b\<close> the child \<open>a\<close>. No number of nested calls is enough for it.
\<close>

lemma cyclicRecords_never_returns:
  "schemaToHTML depth (Some cyclicRecords) = None
   \<and> schemaToHTML_plain depth (Some cyclicRecords) = None"
proof -
  have a: "buildElement d cyclicRecords ''a'' = None \<and> buildElement d cyclicRecords ''b'' = None" for d
    by (induction d)
       (simp_all add: cyclicRecords_def findElement_def isValidTagName_def is_alpha_def mapJoin_def)
  have b: "buildElement_plain d cyclicRecords ''a'' = None
           \<and> buildElement_plain d cyclicRecords ''b'' = None" for d
    by (induction d) (simp_all add: cyclicRecords_def findElement_def mapJoin_def)
  have r: "buildElement d cyclicRecords ''r'' = None" for d
    using a by (cases d)
      (simp_all add: cyclicRecords_def findElement_def isValidTagName_def is_alpha_def
         is_name_char_def mapJoin_def)
  have r': "buildElement_plain d cyclicRecords ''r'' = None" for d
    using b by (cases d) (simp_all add: cyclicRecords_def findElement_def mapJoin_def)
  have roots: "map el_id (rootElements cyclicRecords) = [''r'']"
    by (simp add: rootElements_def childIds_def cyclicRecords_def)
  then obtain x where x: "rootElements cyclicRecords = [x]" "el_id x = ''r''"
    by auto
  have ne: "cyclicRecords \<noteq> []" by (simp add: cyclicRecords_def)
  show ?thesis
    using r r' ne by (simp add: schemaToHTML_def schemaToHTML_plain_def mapJoin_def x)
qed

lemma schemaToHTML_plain_script:
  "schemaToHTML_plain (Suc depth)
     (Some [\<lparr> el_id = i, el_tag = ''p'', el_classes = [], el_attributes = [],
              el_text = Some ''<script>'', el_path = pa, el_children = [],
              el_isRepeatable = r \<rparr>]) = Some ''<p><script></p>''"
  by (simp add: schemaToHTML_plain_def rootElements_def childIds_def mapJoin_def findElement_def
        buildAttrs_plain_def pushAttributes_plain_def attrString_def textOrEmpty_def)

section \<open>The extractor\<close>

subsection \<open>Records, position by position\<close>

lemma recordsFor_iff:
  "recordsFor base pns recs \<longleftrightarrow>
     length recs = length pns \<and> (\<forall>k<length pns. recordFor (base + k) (pns ! k) (recs ! k))"
  by (auto simp: recordsFor_def list_all_iff)

lemma recordsFor_Nil [simp]: "recordsFor base [] []"
  by (simp add: recordsFor_iff)

lemma recordsFor_append:
  assumes "recordsFor base xs r1" and "recordsFor (base + length xs) ys r2"
  shows "recordsFor base (xs @ ys) (r1 @ r2)"
proof -
  from assms have len: "length r1 = length xs" "length r2 = length ys"
    by (auto simp: recordsFor_iff)
  have "recordFor (base + k) ((xs @ ys) ! k) ((r1 @ r2) ! k)" if "k < length (xs @ ys)" for k
  proof (cases "k < length xs")
    case True
    with assms(1) len show ?thesis by (simp add: recordsFor_iff nth_append)
  next
    case False
    with that have "k - length xs < length ys" by simp
    with assms(2) have "recordFor (base + length xs + (k - length xs)) (ys ! (k - length xs))
                          (r2 ! (k - length xs))"
      by (simp add: recordsFor_iff)
    with False len show ?thesis by (simp add: nth_append)
  qed
  with len show ?thesis by (simp add: recordsFor_iff)
qed

lemma recordsFor_Cons:
  assumes "recordFor base x r" and "recordsFor (Suc base) ys r2"
  shows "recordsFor base (x # ys) (r # r2)"
  using recordsFor_append [of base "[x]" "[r]" ys r2] assms
  by (simp add: recordsFor_iff)

lemma length_concat_map:
  assumes "\<And>x. x \<in> set xs \<Longrightarrow> length (f x) = g x"
  shows "length (concat (map f xs)) = sum_list (map g xs)"
  using assms by (induction xs) auto

lemma length_preorder: "length (preorder p n) = countElements n"
  by (induction p n rule: preorder.induct) (simp_all add: length_concat_map)

lemma preorder_nonElement: "\<not> isElement n \<Longrightarrow> preorder p n = []"
  by (cases n) auto

lemma countElements_nonElement: "\<not> isElement n \<Longrightarrow> countElements n = 0"
  by (cases n) auto

lemma concat_preorder_filter:
  "concat (map (preorder p) (filter isElement k)) = concat (map (preorder p) k)"
  by (induction k) (auto simp: preorder_nonElement)

lemma childOffsets_filter: "childOffsets i (filter isElement k) = childOffsets i k"
  by (induction k arbitrary: i) (auto simp: countElements_nonElement)

lemma length_concat_preorder:
  "length (concat (map (preorder p) cs)) = sum_list (map countElements cs)"
  by (induction cs) (auto simp: length_preorder)

lemma isElement_iff_count: "isElement n \<longleftrightarrow> 0 < countElements n"
  by (cases n) auto

lemma recordFor_id: "recordFor j pn e \<Longrightarrow> el_id e = ''element-'' @ string_of_nat j"
  by (auto simp: recordFor_def newElement_def)

lemma traverse_records:
  "\<exists>recs. traverseNode p n path els = ((case recs of [] \<Rightarrow> None | e # _ \<Rightarrow> Some e), els @ recs)
          \<and> recordsFor (length els) (preorder p n) recs"
  "\<exists>recs. traverseChildren node cs path' acc els' =
            (acc @ map (\<lambda>i. ''element-'' @ string_of_nat i) (childOffsets (length els') cs),
             els' @ recs)
          \<and> recordsFor (length els') (concat (map (preorder (Some node)) cs)) recs"
proof (induction p n path els and node cs path' acc els'
        rule: traverseNode_traverseChildren.induct)
  case (1 parent t c a k path elements)
  let ?n = "Element t c a k"
  let ?e = "newElement parent ?n path (length elements)"
  let ?ids = "map (\<lambda>i. ''element-'' @ string_of_nat i)
                (childOffsets (Suc (length elements)) (elementChildren ?n))"
  let ?e' = "?e\<lparr>el_children := ?ids\<rparr>"
  from 1 [OF refl refl refl refl] obtain recs where
    tc: "traverseChildren ?n (elementChildren ?n) (path @ [length (elements @ [?e]) - 1]) []
           (elements @ [?e]) = (?ids, (elements @ [?e]) @ recs)"
    and rf: "recordsFor (length (elements @ [?e]))
               (concat (map (preorder (Some ?n)) (elementChildren ?n))) recs"
    by auto
  have upd: "((elements @ [?e]) @ recs)[length elements := ?e'] = elements @ ?e' # recs"
    by (simp add: list_update_append)
  have "traverseNode parent ?n path elements = (Some ?e', elements @ ?e' # recs)"
    using tc upd by (simp add: Let_def del: elementChildren.simps)
  moreover have "recordFor (length elements) (parent, ?n) ?e'"
    unfolding recordFor_def by (intro exI [of _ path]) simp
  then have "recordsFor (length elements) (preorder parent ?n) (?e' # recs)"
    using rf by (simp add: recordsFor_Cons concat_preorder_filter)
  ultimately show ?case
    by (intro exI [of _ "?e' # recs"]) simp
next
  case (2 parent s path elements)
  show ?case by (intro exI [of _ "[]"]) simp
next
  case (3 parent s path elements)
  show ?case by (intro exI [of _ "[]"]) simp
next
  case (4 node path childElements elements)
  show ?case by (intro exI [of _ "[]"]) simp
next
  case (5 node child rest path acc elements)
  from 5(1) obtain recs1 where
    t1: "traverseNode (Some node) child path elements =
           ((case recs1 of [] \<Rightarrow> None | e # _ \<Rightarrow> Some e), elements @ recs1)"
    and r1: "recordsFor (length elements) (preorder (Some node) child) recs1"
    by blast
  from r1 have len1: "length recs1 = countElements child"
    by (simp add: recordsFor_iff length_preorder)
  show ?case
  proof (cases recs1)
    case Nil
    with len1 have ne: "\<not> isElement child" and c0: "countElements child = 0"
      by (simp_all add: isElement_iff_count)
    from t1 Nil have t1': "(None, elements) = traverseNode (Some node) child path elements"
      by simp
    from 5(2) [OF t1' refl] obtain recs2 where
      t2: "traverseChildren node rest path acc elements =
            (acc @ map (\<lambda>i. ''element-'' @ string_of_nat i) (childOffsets (length elements) rest),
             elements @ recs2)"
      and r2: "recordsFor (length elements) (concat (map (preorder (Some node)) rest)) recs2"
      by blast
    have "traverseChildren node (child # rest) path acc elements =
            (acc @ map (\<lambda>i. ''element-'' @ string_of_nat i)
                     (childOffsets (length elements) (child # rest)),
             elements @ recs2)"
      using t1' [symmetric] t2 ne c0 by simp
    moreover have "recordsFor (length elements)
                     (concat (map (preorder (Some node)) (child # rest))) recs2"
      using r2 ne by (simp add: preorder_nonElement)
    ultimately show ?thesis by blast
  next
    case (Cons e rs)
    with len1 have el: "isElement child" by (simp add: isElement_iff_count)
    from r1 Cons have "recordFor (length elements) (preorder (Some node) child ! 0) e"
      by (auto simp: recordsFor_iff dest: spec [of _ 0])
    then have id: "el_id e = ''element-'' @ string_of_nat (length elements)"
      by (rule recordFor_id)
    from t1 Cons have t1': "(Some e, elements @ recs1) = traverseNode (Some node) child path elements"
      by simp
    from 5(3) [OF t1' refl] obtain recs2 where
      t2: "traverseChildren node rest path (acc @ [el_id e]) (elements @ recs1) =
            ((acc @ [el_id e]) @ map (\<lambda>i. ''element-'' @ string_of_nat i)
                (childOffsets (length (elements @ recs1)) rest),
             (elements @ recs1) @ recs2)"
      and r2: "recordsFor (length (elements @ recs1))
                 (concat (map (preorder (Some node)) rest)) recs2"
      by blast
    have "traverseChildren node (child # rest) path acc elements =
            (acc @ map (\<lambda>i. ''element-'' @ string_of_nat i)
                     (childOffsets (length elements) (child # rest)),
             elements @ recs1 @ recs2)"
      using t1' [symmetric] t2 el id len1 by simp
    moreover have "recordsFor (length elements)
                     (concat (map (preorder (Some node)) (child # rest))) (recs1 @ recs2)"
      using recordsFor_append [OF r1] r2 len1 by (simp add: length_preorder)
    ultimately show ?thesis by blast
  qed
qed

lemma traverseTop_records:
  "\<exists>recs. traverseTop body cs els = els @ recs
          \<and> recordsFor (length els) (concat (map (preorder (Some body)) cs)) recs"
proof (induction cs arbitrary: els)
  case Nil
  show ?case by (intro exI [of _ "[]"]) simp
next
  case (Cons c cs)
  from traverse_records(1) [of "Some body" c "[]" els] obtain recs1 where
    t1: "snd (traverseNode (Some body) c [] els) = els @ recs1"
    and r1: "recordsFor (length els) (preorder (Some body) c) recs1"
    by auto
  from r1 have len1: "length recs1 = countElements c"
    by (simp add: recordsFor_iff length_preorder)
  from Cons [of "els @ recs1"] obtain recs2 where
    t2: "traverseTop body cs (els @ recs1) = (els @ recs1) @ recs2"
    and r2: "recordsFor (length (els @ recs1)) (concat (map (preorder (Some body)) cs)) recs2"
    by blast
  have "traverseTop body (c # cs) els = els @ recs1 @ recs2"
    using t1 t2 by simp
  moreover have "recordsFor (length els) (concat (map (preorder (Some body)) (c # cs)))
                   (recs1 @ recs2)"
    using recordsFor_append [OF r1] r2 len1 by (simp add: length_preorder)
  ultimately show ?case by blast
qed

lemma extractBody_records: "recordsFor 0 (documentOrder body) (extractBody body)"
  using traverseTop_records [of body "elementChildren body" "[]"]
  by (auto simp: extractBody_def documentOrder_def)

subsection \<open>Child positions in a pre-order list\<close>

lemma childOffsets_range:
  "j \<in> set (childOffsets i cs) \<Longrightarrow> i \<le> j \<and> j < i + sum_list (map countElements cs)"
proof (induction cs arbitrary: i)
  case Nil
  then show ?case by simp
next
  case (Cons c cs)
  show ?case
  proof (cases "j \<in> set (childOffsets (i + countElements c) cs)")
    case True
    from Cons.IH [OF this] show ?thesis by simp
  next
    case False
    with Cons.prems have "isElement c" "j = i" by (auto split: if_splits)
    then show ?thesis by (simp add: isElement_iff_count)
  qed
qed

lemma childOffsets_shift: "childOffsets (m + i) cs = map ((+) m) (childOffsets i cs)"
  by (induction cs arbitrary: i) (auto simp: add.assoc)

lemma sorted_childOffsets: "sorted_wrt (<) (childOffsets i cs)"
proof (induction cs arbitrary: i)
  case Nil
  then show ?case by simp
next
  case (Cons c cs)
  have "i < j" if "isElement c" "j \<in> set (childOffsets (i + countElements c) cs)" for j
    using childOffsets_range [OF that(2)] that(1) by (simp add: isElement_iff_count)
  with Cons show ?case by auto
qed

lemma preorder_hd: "isElement c \<Longrightarrow> \<exists>rest. preorder p c = (p, c) # rest"
  by (cases c) auto

lemma forest_heads:
  "map (\<lambda>j. (pre @ concat (map (preorder p) cs)) ! j) (childOffsets (length pre) cs) =
     map (Pair p) (filter isElement cs)"
proof (induction cs arbitrary: pre)
  case Nil
  then show ?case by simp
next
  case (Cons c cs)
  have len: "length (pre @ preorder p c) = length pre + countElements c"
    by (simp add: length_preorder)
  have tail: "map (\<lambda>j. (pre @ concat (map (preorder p) (c # cs))) ! j)
                (childOffsets (length pre + countElements c) cs) =
              map (Pair p) (filter isElement cs)"
    using Cons [of "pre @ preorder p c"] unfolding len by simp
  show ?case
  proof (cases "isElement c")
    case True
    then obtain rest where "preorder p c = (p, c) # rest" using preorder_hd by blast
    then have "(pre @ concat (map (preorder p) (c # cs))) ! length pre = (p, c)"
      by (simp add: nth_append)
    with True tail show ?thesis by simp
  next
    case False
    with tail show ?thesis by simp
  qed
qed

lemma childPositions_append_left:
  "k < length A \<Longrightarrow> childPositions (A @ B) k = childPositions A k"
  by (simp add: childPositions_def nth_append)

lemma childPositions_append_right:
  "childPositions (A @ B) (length A + k) = map ((+) (length A)) (childPositions B k)"
  using childOffsets_shift [of "length A" "Suc k"]
  by (simp add: childPositions_def nth_append)

lemma positionOk_append_left:
  assumes "positionOk A k" and "k < length A"
  shows "positionOk (A @ B) k"
proof -
  from assms(1) have in_A: "\<forall>j\<in>set (childPositions A k). k < j \<and> j < length A"
    and eq: "map (\<lambda>j. A ! j) (childPositions A k) =
               map (Pair (Some (snd (A ! k)))) (elementChildren (snd (A ! k)))"
    by (auto simp: positionOk_def list_all_iff)
  have "map (\<lambda>j. (A @ B) ! j) (childPositions A k) = map (\<lambda>j. A ! j) (childPositions A k)"
    using in_A by (auto simp: nth_append)
  with in_A eq assms(2) show ?thesis
    by (auto simp: positionOk_def list_all_iff childPositions_append_left nth_append)
qed

lemma positionOk_append_right:
  assumes "positionOk B k"
  shows "positionOk (A @ B) (length A + k)"
proof -
  from assms have in_B: "\<forall>j\<in>set (childPositions B k). k < j \<and> j < length B"
    and eq: "map (\<lambda>j. B ! j) (childPositions B k) =
               map (Pair (Some (snd (B ! k)))) (elementChildren (snd (B ! k)))"
    by (auto simp: positionOk_def list_all_iff)
  have "map (\<lambda>j. (A @ B) ! j) (map ((+) (length A)) (childPositions B k)) =
        map (\<lambda>j. B ! j) (childPositions B k)"
    by (simp add: comp_def)
  with in_B eq show ?thesis
    by (auto simp: positionOk_def list_all_iff childPositions_append_right)
qed

lemma positionsOk_append:
  assumes "\<forall>k<length A. positionOk A k" and "\<forall>k<length B. positionOk B k"
  shows "\<forall>k<length (A @ B). positionOk (A @ B) k"
proof (intro allI impI)
  fix k assume k: "k < length (A @ B)"
  show "positionOk (A @ B) k"
  proof (cases "k < length A")
    case True
    with assms(1) show ?thesis by (simp add: positionOk_append_left)
  next
    case False
    with k have "k - length A < length B" by simp
    with assms(2) have "positionOk (A @ B) (length A + (k - length A))"
      by (simp add: positionOk_append_right)
    with False show ?thesis by simp
  qed
qed

lemma positionsOk_forest:
  assumes "\<And>c. c \<in> set cs \<Longrightarrow> \<forall>k<length (preorder p c). positionOk (preorder p c) k"
  shows "\<forall>k<length (concat (map (preorder p) cs)). positionOk (concat (map (preorder p) cs)) k"
  using assms
proof (induction cs)
  case Nil
  then show ?case by simp
next
  case (Cons c cs)
  have "\<forall>k<length (preorder p c @ concat (map (preorder p) cs)).
          positionOk (preorder p c @ concat (map (preorder p) cs)) k"
    by (rule positionsOk_append) (use Cons in auto)
  then show ?case by simp
qed

lemma positionsOk_preorder: "\<forall>k<length (preorder p n). positionOk (preorder p n) k"
proof (induction n arbitrary: p)
  case (Element t c a k)
  let ?n = "Element t c a k"
  let ?F = "concat (map (preorder (Some ?n)) k)"
  have F: "\<forall>i<length ?F. positionOk ?F i"
    by (rule positionsOk_forest) (use Element in auto)
  have root: "positionOk ((p, ?n) # ?F) 0"
  proof -
    have cp: "childPositions ((p, ?n) # ?F) 0 = childOffsets (Suc 0) k"
      by (simp add: childPositions_def childOffsets_filter)
    have "\<forall>j\<in>set (childOffsets (Suc 0) k). 0 < j \<and> j < length ((p, ?n) # ?F)"
      using childOffsets_range [of _ "Suc 0" k] by (fastforce simp: length_concat_preorder)
    moreover have "map (\<lambda>j. ((p, ?n) # ?F) ! j) (childOffsets (Suc 0) k) =
                   map (Pair (Some ?n)) (filter isElement k)"
      using forest_heads [of "[(p, ?n)]" "Some ?n" k] by simp
    ultimately show ?thesis
      by (simp add: positionOk_def list_all_iff cp)
  qed
  have "positionOk ((p, ?n) # ?F) i" if "i < length ((p, ?n) # ?F)" for i
  proof (cases i)
    case 0
    with root show ?thesis by simp
  next
    case (Suc i')
    with that F have "positionOk ?F i'" by simp
    from positionOk_append_right [OF this, of "[(p, ?n)]"] Suc show ?thesis by simp
  qed
  then show ?case by simp
qed simp_all

lemma positionsOk_documentOrder:
  "k < length (documentOrder body) \<Longrightarrow> positionOk (documentOrder body) k"
  unfolding documentOrder_def
  using positionsOk_forest [of "elementChildren body" "Some body"] positionsOk_preorder
  by blast

subsection \<open>Decimal ids are distinct\<close>

lemma nat_of_digits_snoc:
  "nat_of_digits (s @ [c]) = 10 * nat_of_digits s + ((of_char c :: nat) - 48)"
  by (simp add: nat_of_digits_def)

lemma of_char_digit_char: "d < 10 \<Longrightarrow> (of_char (digit_char d) :: nat) = 48 + d"
  by (simp add: digit_char_def)

lemma nat_of_digits_string_of_nat: "nat_of_digits (string_of_nat n) = n"
proof (induction n rule: string_of_nat.induct)
  case (1 n)
  show ?case
  proof (cases "n < 10")
    case True
    then show ?thesis
      by (subst string_of_nat.simps) (simp add: nat_of_digits_def of_char_digit_char)
  next
    case False
    with 1 have "nat_of_digits (string_of_nat (n div 10)) = n div 10" by simp
    with False show ?thesis
      by (subst string_of_nat.simps) (simp add: nat_of_digits_snoc of_char_digit_char)
  qed
qed

lemma string_of_nat_inj: "string_of_nat m = string_of_nat n \<longleftrightarrow> m = n"
  by (metis nat_of_digits_string_of_nat)

subsection \<open>Every position but the top-level ones is a child position exactly once\<close>

lemma map_add_upt_from: "map ((+) b) [i..<j] = [b + i..<b + j]"
  by (induction j) auto

lemma allChildPositions_append:
  "allChildPositions (A @ B) =
     allChildPositions A @ map ((+) (length A)) (allChildPositions B)"
proof -
  have upt: "[0..<length A + length B] = [0..<length A] @ map ((+) (length A)) [0..<length B]"
    using upt_add_eq_append [of 0 "length A" "length B"] by (simp add: map_add_upt_from)
  have l: "map (childPositions (A @ B)) [0..<length A] = map (childPositions A) [0..<length A]"
    by (simp add: childPositions_append_left)
  have r: "map (childPositions (A @ B)) (map ((+) (length A)) [0..<length B]) =
           map (\<lambda>k. map ((+) (length A)) (childPositions B k)) [0..<length B]"
    by (simp add: childPositions_append_right comp_def)
  have "allChildPositions (A @ B) =
          concat (map (childPositions (A @ B)) [0..<length A])
          @ concat (map (childPositions (A @ B)) (map ((+) (length A)) [0..<length B]))"
    unfolding allChildPositions_def length_append upt by simp
  also have "\<dots> = allChildPositions A
                 @ concat (map (\<lambda>k. map ((+) (length A)) (childPositions B k)) [0..<length B])"
    unfolding l r by (simp add: allChildPositions_def)
  also have "concat (map (\<lambda>k. map ((+) (length A)) (childPositions B k)) [0..<length B]) =
             map ((+) (length A)) (allChildPositions B)"
    by (simp add: allChildPositions_def map_concat comp_def)
  finally show ?thesis .
qed

lemma mset_forest_positions:
  assumes "\<And>c q. c \<in> set cs \<Longrightarrow> isElement c \<Longrightarrow>
             mset (allChildPositions (preorder q c)) = mset [1..<length (preorder q c)]"
  shows "mset (map ((+) b) (allChildPositions (concat (map (preorder p) cs))))
           + mset (childOffsets b cs)
         = mset [b..<b + length (concat (map (preorder p) cs))]"
  using assms
proof (induction cs arbitrary: b)
  case Nil
  then show ?case by (simp add: allChildPositions_def)
next
  case (Cons c cs)
  let ?A = "preorder p c"
  let ?B = "concat (map (preorder p) cs)"
  have IH: "mset (map ((+) (b + length ?A)) (allChildPositions ?B))
              + mset (childOffsets (b + length ?A) cs)
            = mset [b + length ?A..<b + length ?A + length ?B]"
    by (rule Cons.IH) (use Cons.prems in auto)
  show ?case
  proof (cases "isElement c")
    case False
    then have "?A = []" "countElements c = 0"
      by (simp_all add: preorder_nonElement countElements_nonElement)
    with IH False show ?thesis by simp
  next
    case True
    then have A: "mset (allChildPositions ?A) = mset [1..<length ?A]"
      using Cons.prems by simp
    from True have pos: "0 < length ?A" by (simp add: length_preorder isElement_iff_count)
    have "mset (map ((+) b) (allChildPositions ?A)) = image_mset ((+) b) (mset [1..<length ?A])"
      using A by (metis mset_map)
    also have "\<dots> = mset (map ((+) b) [1..<length ?A])" by simp
    also have "map ((+) b) [1..<length ?A] = [Suc b..<b + length ?A]"
      by (simp add: map_add_upt_from)
    finally have A': "mset (map ((+) b) (allChildPositions ?A)) = mset [Suc b..<b + length ?A]" .
    have s1: "[b..<b + length ?A + length ?B] =
                [b..<b + length ?A] @ [b + length ?A..<b + length ?A + length ?B]"
      by (rule upt_add_eq_append) simp
    have s2: "[b..<b + length ?A] = b # [Suc b..<b + length ?A]"
      using pos by (simp add: upt_conv_Cons)
    have m2: "map ((+) b) (map ((+) (length ?A)) ys) = map ((+) (b + length ?A)) ys"
      for ys :: "nat list"
      by (induction ys) (simp_all add: add.assoc)
    have co: "childOffsets b (c # cs) = b # childOffsets (b + length ?A) cs"
      using True by (simp add: length_preorder)
    have "mset (map ((+) b) (allChildPositions (?A @ ?B))) + mset (childOffsets b (c # cs))
          = mset (map ((+) b) (allChildPositions ?A))
            + (mset (map ((+) (b + length ?A)) (allChildPositions ?B))
               + mset (childOffsets (b + length ?A) cs))
            + {#b#}"
      unfolding allChildPositions_append map_append m2 co by simp
    also have "\<dots> = mset [b..<b + length ?A + length ?B]"
      unfolding IH A' s1 s2 by simp
    finally show ?thesis by (simp add: add.assoc)
  qed
qed

lemma mset_tree_positions:
  "isElement n \<Longrightarrow> mset (allChildPositions (preorder p n)) = mset [1..<length (preorder p n)]"
proof (induction n arbitrary: p)
  case (Element t c a k)
  let ?n = "Element t c a k"
  let ?F = "concat (map (preorder (Some ?n)) k)"
  have F: "mset (map ((+) 1) (allChildPositions ?F)) + mset (childOffsets 1 k)
           = mset [1..<1 + length ?F]"
    by (rule mset_forest_positions) (use Element in auto)
  have "allChildPositions ((p, ?n) # ?F) =
          childOffsets (Suc 0) k @ map ((+) 1) (allChildPositions ?F)"
    using allChildPositions_append [of "[(p, ?n)]" ?F]
    by (simp add: allChildPositions_def childPositions_def childOffsets_filter)
  with F show ?case by (simp add: add.commute)
qed simp_all

lemma distinct_allChildPositions: "distinct (allChildPositions (documentOrder body))"
proof -
  let ?L = "documentOrder body"
  have "mset (map ((+) 0) (allChildPositions ?L)) + mset (childOffsets 0 (elementChildren body))
        = mset [0..<0 + length ?L]"
    unfolding documentOrder_def
    by (rule mset_forest_positions) (rule mset_tree_positions)
  moreover have "map ((+) 0) (allChildPositions ?L) = allChildPositions ?L"
    by (rule map_idI) simp
  ultimately have "mset (allChildPositions ?L @ childOffsets 0 (elementChildren body))
             = mset [0..<length ?L]"
    by simp
  then have "distinct (allChildPositions ?L @ childOffsets 0 (elementChildren body))"
    using mset_eq_imp_distinct_iff distinct_upt by blast
  then show ?thesis by simp
qed

subsection \<open>What the extractor returns, position by position\<close>

lemma extracted_record:
  assumes "i < length (documentOrder body)"
  shows "recordFor i (documentOrder body ! i) (extractBody body ! i)"
  using extractBody_records [of body] assms by (simp add: recordsFor_iff)

lemma length_extractBody: "length (extractBody body) = length (documentOrder body)"
  using extractBody_records [of body] by (simp add: recordsFor_iff)

lemma length_documentOrder:
  "length (documentOrder body) = sum_list (map countElements (elementChildren body))"
  by (simp add: documentOrder_def length_concat_preorder)

lemma extracted_ids:
  "map el_id (extractBody body) =
     map (\<lambda>i. ''element-'' @ string_of_nat i) [0..<length (documentOrder body)]"
  by (rule nth_equalityI)
     (simp_all add: length_extractBody recordFor_id [OF extracted_record])

lemma extracted_children:
  assumes "i < length (documentOrder body)"
  shows "el_children (extractBody body ! i) =
           map (\<lambda>j. ''element-'' @ string_of_nat j) (childPositions (documentOrder body) i)"
  using extracted_record [OF assms] by (auto simp: recordFor_def childPositions_def)

lemma extracted_fields:
  assumes "i < length (documentOrder body)"
  shows "el_tag (extractBody body ! i) = toLowerCase (tagName (snd (documentOrder body ! i)))"
    and "el_classes (extractBody body ! i) = classList (snd (documentOrder body ! i))"
    and "el_isRepeatable (extractBody body ! i) =
           isRepeatableElement (fst (documentOrder body ! i)) (snd (documentOrder body ! i))"
  using extracted_record [OF assms] by (auto simp: recordFor_def newElement_def)

lemma childPositions_nodes:
  assumes "i < length (documentOrder body)"
  shows "map (\<lambda>j. snd (documentOrder body ! j)) (childPositions (documentOrder body) i) =
           elementChildren (snd (documentOrder body ! i))"
    and "\<forall>j\<in>set (childPositions (documentOrder body) i). i < j \<and> j < length (documentOrder body)"
proof -
  let ?L = "documentOrder body"
  from positionsOk_documentOrder [OF assms]
  have r: "\<forall>j\<in>set (childPositions ?L i). i < j \<and> j < length ?L"
    and eq: "map (\<lambda>j. ?L ! j) (childPositions ?L i) =
               map (Pair (Some (snd (?L ! i)))) (elementChildren (snd (?L ! i)))"
    by (auto simp: positionOk_def list_all_iff)
  from eq have "map snd (map (\<lambda>j. ?L ! j) (childPositions ?L i)) =
                map snd (map (Pair (Some (snd (?L ! i)))) (elementChildren (snd (?L ! i))))"
    by simp
  then show "map (\<lambda>j. snd (?L ! j)) (childPositions ?L i) = elementChildren (snd (?L ! i))"
    by (simp add: comp_def)
  from r show "\<forall>j\<in>set (childPositions ?L i). i < j \<and> j < length ?L" .
qed

subsection \<open>The references of an extracted collection\<close>

lemma extracted_children_later:
  assumes "i < length (extractBody body)" and "c \<in> set (el_children (extractBody body ! i))"
  shows "\<exists>j. i < j \<and> j < length (extractBody body) \<and> el_id (extractBody body ! j) = c"
proof -
  from assms(1) have i: "i < length (documentOrder body)" by (simp add: length_extractBody)
  from assms(2) obtain j where j: "j \<in> set (childPositions (documentOrder body) i)"
    and c: "c = ''element-'' @ string_of_nat j"
    by (auto simp: extracted_children [OF i])
  from childPositions_nodes(2) [OF i] j have r: "i < j" "j < length (documentOrder body)"
    by auto
  from recordFor_id [OF extracted_record [OF r(2)]] c r show ?thesis
    by (auto simp: length_extractBody)
qed

lemma distinct_extracted_ids: "distinct (map el_id (extractBody body))"
  unfolding extracted_ids
  by (simp add: distinct_map inj_on_def string_of_nat_inj)

lemma concat_extracted_children:
  "concat (map el_children (extractBody body)) =
     map (\<lambda>j. ''element-'' @ string_of_nat j) (allChildPositions (documentOrder body))"
proof -
  have "map el_children (extractBody body) =
          map (\<lambda>i. map (\<lambda>j. ''element-'' @ string_of_nat j) (childPositions (documentOrder body) i))
            [0..<length (documentOrder body)]"
    by (rule nth_equalityI) (simp_all add: length_extractBody extracted_children)
  then show ?thesis
    by (simp add: allChildPositions_def map_concat comp_def)
qed

lemma distinct_extracted_children: "distinct (concat (map el_children (extractBody body)))"
  unfolding concat_extracted_children
  by (simp add: distinct_map distinct_allChildPositions inj_on_def string_of_nat_inj)

lemma acyclic_extracted: "acyclic (childEdges (extractBody body))"
proof (rule acyclic_by_rank [where f = "\<lambda>s. nat_of_digits (drop 8 s)"])
  fix a c assume "(a, c) \<in> childEdges (extractBody body)"
  then obtain e where e: "e \<in> set (extractBody body)" "el_id e = a" "c \<in> set (el_children e)"
    by (auto simp: childEdges_iff)
  then obtain i where i: "i < length (extractBody body)" "e = extractBody body ! i"
    by (auto simp: in_set_conv_nth)
  from extracted_children_later [OF i(1)] e(3) i(2) obtain j where
    j: "i < j" "j < length (extractBody body)" "el_id (extractBody body ! j) = c"
    by blast
  from i have "i < length (documentOrder body)" by (simp add: length_extractBody)
  from recordFor_id [OF extracted_record [OF this]] e(2) i(2)
  have a: "a = ''element-'' @ string_of_nat i" by simp
  from j have "j < length (documentOrder body)" by (simp add: length_extractBody)
  from recordFor_id [OF extracted_record [OF this]] j(3)
  have c: "c = ''element-'' @ string_of_nat j" by simp
  show "nat_of_digits (drop 8 a) < nat_of_digits (drop 8 c)"
    unfolding a c using j(1) by (simp add: nat_of_digits_string_of_nat)
qed

subsection \<open>Comparing class lists\<close>

lemma split_at_space:
  assumes "CHR '' '' \<notin> set a" and "CHR '' '' \<notin> set b"
    and "a @ CHR '' '' # r1 = b @ CHR '' '' # r2"
  shows "a = b \<and> r1 = r2"
proof -
  have "takeWhile (\<lambda>c. c \<noteq> CHR '' '') (a @ CHR '' '' # r1) = a"
    using assms(1) by (auto simp: takeWhile_tail takeWhile_eq_all_conv)
  moreover have "takeWhile (\<lambda>c. c \<noteq> CHR '' '') (b @ CHR '' '' # r2) = b"
    using assms(2) by (auto simp: takeWhile_tail takeWhile_eq_all_conv)
  ultimately have "a = b" using assms(3) by simp
  with assms(3) show ?thesis by simp
qed

lemma join_Cons: "join sep (x # xs) = (if xs = [] then x else x @ sep @ join sep xs)"
  by (cases xs) simp_all

lemma join_space_inj:
  assumes "\<forall>t\<in>set xs. t \<noteq> [] \<and> CHR '' '' \<notin> set t"
    and "\<forall>t\<in>set ys. t \<noteq> [] \<and> CHR '' '' \<notin> set t"
    and "join '' '' xs = join '' '' ys"
  shows "xs = ys"
  using assms
proof (induction xs arbitrary: ys)
  case Nil
  then show ?case by (cases ys) (auto simp: join_Cons split: if_splits)
next
  case (Cons x xs)
  show ?case
  proof (cases ys)
    case Nil
    with Cons.prems show ?thesis by (auto simp: join_Cons split: if_splits)
  next
    case c: (Cons y ys')
    from Cons.prems c have sx: "CHR '' '' \<notin> set x" and sy: "CHR '' '' \<notin> set y" by auto
    from Cons.prems(3) c
    have eq: "(if xs = [] then x else x @ CHR '' '' # join '' '' xs) =
              (if ys' = [] then y else y @ CHR '' '' # join '' '' ys')"
      by (auto simp: join_Cons split: if_splits)
    show ?thesis
    proof (cases "xs = []")
      case True
      show ?thesis
      proof (cases "ys' = []")
        case True
        with \<open>xs = []\<close> eq c show ?thesis by simp
      next
        case False
        with True eq have "x = y @ CHR '' '' # join '' '' ys'" by simp
        with sx show ?thesis by simp
      qed
    next
      case False
      show ?thesis
      proof (cases "ys' = []")
        case True
        with False eq have "y = x @ CHR '' '' # join '' '' xs" by simp
        with sy show ?thesis by simp
      next
        case ne: False
        with False eq have "x @ CHR '' '' # join '' '' xs = y @ CHR '' '' # join '' '' ys'"
          by simp
        from split_at_space [OF sx sy this] have xy: "x = y" and r: "join '' '' xs = join '' '' ys'"
          by auto
        have "xs = ys'"
          by (rule Cons.IH) (use Cons.prems c r in auto)
        with xy c show ?thesis by simp
      qed
    qed
  qed
qed

lemma sort_eq_iff_set:
  fixes xs ys :: "string list"
  assumes "distinct xs" and "distinct ys"
  shows "sort xs = sort ys \<longleftrightarrow> set xs = set ys"
proof
  assume "sort xs = sort ys"
  then have "set (sort xs) = set (sort ys)" by simp
  then show "set xs = set ys" by simp
next
  assume "set xs = set ys"
  with assms have "mset xs = mset ys" by (simp add: set_eq_iff_mset_eq_distinct)
  then show "sort xs = sort ys"
    by (metis properties_for_sort sorted_sort mset_sort)
qed

lemma classKey_eq_iff:
  assumes "tokensOk a" and "tokensOk b"
  shows "classKey a = classKey b \<longleftrightarrow> set (classList a) = set (classList b)"
proof -
  have "join '' '' (sort (classList a)) = join '' '' (sort (classList b))
        \<longleftrightarrow> sort (classList a) = sort (classList b)"
    using assms join_space_inj [of "sort (classList a)" "sort (classList b)"]
    by (auto simp: tokensOk_def list_all_iff)
  with assms show ?thesis
    by (simp add: classKey_def sort_eq_iff_set tokensOk_def)
qed

lemma isRepeatableElement_iff:
  assumes ok: "\<forall>c\<in>set (elementChildren p). tokensOk c" and mem: "n \<in> set (elementChildren p)"
  shows "isRepeatableElement (Some p) n \<longleftrightarrow>
           toLowerCase (tagName n) = ''li''
           \<or> 2 \<le> length (filter (\<lambda>c. tagName c = tagName n \<and> set (classList c) = set (classList n))
                            (elementChildren p))
           \<or> (toLowerCase (tagName n) \<in> {''span'', ''a'', ''button'', ''div'', ''article'', ''section''}
              \<and> toLowerCase (tagName p) \<in> {''ul'', ''ol'', ''nav'', ''menu''})"
proof -
  let ?sib = "filter (\<lambda>child. tagName child = tagName n) (elementChildren p)"
  let ?sim = "filter (\<lambda>sibling. classKey sibling = classKey n) ?sib"
  have sim: "?sim = filter (\<lambda>c. tagName c = tagName n \<and> set (classList c) = set (classList n))
                      (elementChildren p)"
    using ok mem by (auto simp: classKey_eq_iff intro!: filter_cong)
  have le: "length ?sim \<le> length ?sib" by (rule length_filter_le)
  have "(if length ?sib > 1 then length ?sim > 1 else False) \<longleftrightarrow> 2 \<le> length ?sim"
    using le by auto
  then have two: "(if length ?sib > 1 then length ?sim > 1 else False) \<longleftrightarrow>
      2 \<le> length (filter (\<lambda>c. tagName c = tagName n \<and> set (classList c) = set (classList n))
                      (elementChildren p))"
    unfolding sim .
  show ?thesis
    unfolding isRepeatableElement_def Let_def repeatableTags_def option.case two
    by auto
qed

subsection \<open>Parents in document order\<close>

lemma domTokensOk_tokensOk: "domTokensOk y \<Longrightarrow> isElement y \<Longrightarrow> tokensOk y"
  by (cases y) simp_all

lemma preorder_parents:
  assumes "domTokensOk x" and "(q, n) \<in> set (preorder p x)"
  shows "(q, n) = (p, x)
         \<or> (\<exists>q'. q = Some q' \<and> n \<in> set (elementChildren q')
                  \<and> (\<forall>c\<in>set (elementChildren q'). tokensOk c))"
  using assms
proof (induction x arbitrary: p)
  case (Element t c a k)
  let ?x = "Element t c a k"
  have kids: "\<forall>c\<in>set (elementChildren ?x). tokensOk c"
  proof
    fix y assume "y \<in> set (elementChildren ?x)"
    then have "isElement y" "domTokensOk y" using Element.prems(1) by auto
    then show "tokensOk y" by (simp add: domTokensOk_tokensOk)
  qed
  show ?case
  proof (cases "(q, n) = (p, ?x)")
    case True
    then show ?thesis by simp
  next
    case False
    with Element.prems(2) obtain y where y: "y \<in> set k" "(q, n) \<in> set (preorder (Some ?x) y)"
      by auto
    from y(1) Element.prems(1) have "domTokensOk y" by simp
    from Element.IH [OF y(1) this y(2)] show ?thesis
    proof
      assume "(q, n) = (Some ?x, y)"
      moreover from y(2) have "isElement y" by (cases y) auto
      ultimately show ?thesis using y(1) kids by auto
    next
      assume "\<exists>q'. q = Some q' \<and> n \<in> set (elementChildren q')
                \<and> (\<forall>c\<in>set (elementChildren q'). tokensOk c)"
      then show ?thesis by simp
    qed
  qed
qed simp_all

lemma documentOrder_parents:
  assumes "domTokensOk body" and "i < length (documentOrder body)"
  shows "\<exists>p n. documentOrder body ! i = (Some p, n) \<and> n \<in> set (elementChildren p)
               \<and> (\<forall>c\<in>set (elementChildren p). tokensOk c)"
proof -
  obtain q n where qn: "documentOrder body ! i = (q, n)" by (cases "documentOrder body ! i")
  with assms(2) have "(q, n) \<in> set (documentOrder body)" by (metis nth_mem)
  then obtain y where y: "y \<in> set (elementChildren body)" "(q, n) \<in> set (preorder (Some body) y)"
    by (auto simp: documentOrder_def)
  from y(1) obtain t c a k where body: "body = Element t c a k" by (cases body) auto
  with y(1) assms(1) have dy: "domTokensOk y" and ey: "isElement y" by auto
  have kids: "\<forall>c\<in>set (elementChildren body). tokensOk c"
  proof
    fix z assume "z \<in> set (elementChildren body)"
    with body assms(1) have "isElement z" "domTokensOk z" by auto
    then show "tokensOk z" by (simp add: domTokensOk_tokensOk)
  qed
  from preorder_parents [OF dy y(2)] show ?thesis
  proof
    assume "(q, n) = (Some body, y)"
    with qn y(1) kids show ?thesis by auto
  next
    assume "\<exists>q'. q = Some q' \<and> n \<in> set (elementChildren q')
              \<and> (\<forall>c\<in>set (elementChildren q'). tokensOk c)"
    with qn show ?thesis by auto
  qed
qed

subsection \<open>The extractor on the example document\<close>

lemmas extractor_eval =
  extractBody_def newElement_def collectAttributes_def obj_set_def is_array_index_def
  is_digit_def directText_def trim_def is_space_def isRepeatableElement_def classKey_def
  repeatableTags_def toLowerCase_def lower_char_def char_of_def bit_Suc_0_iff
  string_of_nat.simps digit_char_def Let_def

lemma extractBody_exampleBody:
  "extractBody exampleBody =
     [\<lparr>el_id = ''element-0'', el_tag = ''div'', el_classes = [],
        el_attributes = [], el_text = Some [], el_path = [0],
        el_children = [''element-1'', ''element-2'', ''element-3''],
        el_isRepeatable = False\<rparr>,
      \<lparr>el_id = ''element-1'', el_tag = ''a'', el_classes = [''x'', ''y''],
        el_attributes = [(''href'', ''#'')], el_text = Some ''1'',
        el_path = [0, 1], el_children = [], el_isRepeatable = True\<rparr>,
      \<lparr>el_id = ''element-2'', el_tag = ''a'', el_classes = [''y'', ''x''],
        el_attributes = [], el_text = Some ''2'', el_path = [0, 2],
        el_children = [], el_isRepeatable = True\<rparr>,
      \<lparr>el_id = ''element-3'', el_tag = ''a'', el_classes = [''z''],
        el_attributes = [(''id'', ''q'')], el_text = Some ''3'', el_path = [0, 3],
        el_children = [], el_isRepeatable = False\<rparr>,
      \<lparr>el_id = ''element-4'', el_tag = ''ul'', el_classes = [],
        el_attributes = [], el_text = Some [], el_path = [4],
        el_children = [''element-5''], el_isRepeatable = False\<rparr>,
      \<lparr>el_id = ''element-5'', el_tag = ''li'', el_classes = [],
        el_attributes = [], el_text = Some [], el_path = [4, 5],
        el_children = [], el_isRepeatable = True\<rparr>]"
  by (simp add: exampleBody_def extractor_eval)

lemma documentOrder_exampleBody:
  "map (\<lambda>pn. (map_option tagName (fst pn), tagName (snd pn))) (documentOrder exampleBody) =
     [(Some ''BODY'', ''DIV''), (Some ''DIV'', ''A''), (Some ''DIV'', ''A''), (Some ''DIV'', ''A''),
      (Some ''BODY'', ''UL''), (Some ''UL'', ''LI'')]"
  by (simp add: documentOrder_def exampleBody_def)

lemma length_documentOrder_exampleBody: "length (documentOrder exampleBody) = 6"
  using arg_cong [OF documentOrder_exampleBody, of length] by simp

lemma childPositions_exampleBody:
  "childPositions (documentOrder exampleBody) 0 = [1, 2, 3]"
  by (simp add: childPositions_def documentOrder_def exampleBody_def)

lemma domTokensOk_exampleBody: "domTokensOk exampleBody"
  by (simp add: exampleBody_def tokensOk_def)

lemma parsedBody_exampleBody: "parsedBody (\<lambda>html. exampleBody) html = exampleBody"
  by (simp add: parsedBody_def)

chapter \<open>The claims\<close>

section \<open>Escaping round trip\<close>



section \<open>Escaping on output\<close>



section \<open>Null and undefined input\<close>

text \<open>
  Claim C3, as stated: passing \<open>null\<close> or \<open>undefined\<close> as the record collection to
  \<open>schemaToHTML\<close>, or as the markup to \<open>parseHTMLToSchema\<close>, raises an error and is
  never coerced to an empty result. It is not so: the first statement of \<open>schemaToHTML\<close>
  returns the empty string for them, in both copies and even with no nested call
  available; and \<open>parseHTMLToSchema\<close> returns the records of the document parsed from the
  string \<open>null\<close>, which for a parser that reads it as text are none.
\<close>

theorem schemaToHTML_null_counterexample:
  "schemaToHTML 0 None = Some [] \<and> schemaToHTML_plain 0 None = Some []
   \<and> parseHTMLToSchema textElementParser Null = []"
  by (simp add: schemaToHTML_def schemaToHTML_plain_def parseHTMLToSchema_def parsedBody_def
        textElementParser_def extractBody_def)

text \<open>
  Claim C3, amended. For \<open>null\<close> or \<open>undefined\<close> in place of the record collection, both
  copies of \<open>schemaToHTML\<close> return the empty string, as they do for the empty collection.
  For \<open>null\<close> or \<open>undefined\<close> in place of the markup, \<open>parseHTMLToSchema\<close> returns what
  it returns for the string \<open>null\<close> or \<open>undefined\<close>.
\<close>

theorem schemaToHTML_null_is_empty:
  "schemaToHTML depth None = Some [] \<and> schemaToHTML depth None = schemaToHTML depth (Some [])
   \<and> schemaToHTML_plain depth None = Some []
   \<and> schemaToHTML_plain depth None = schemaToHTML_plain depth (Some [])
   \<and> parseHTMLToSchema parser Null = parseHTMLToSchema parser (Html ''null'')
   \<and> parseHTMLToSchema parser Undefined = parseHTMLToSchema parser (Html ''undefined'')"
  by (simp add: schemaToHTML_def schemaToHTML_plain_def parseHTMLToSchema_def parsedBody_def)

section \<open>Repeatability\<close>

text \<open>
  Claim C4. Take a document whose class lists are token sets. Every extracted record
  belongs to an element \<open>n\<close> with a parent element \<open>p\<close> (the body for a top-level
  element), \<open>n\<close> being one of the element children of \<open>p\<close>; and its \<open>isRepeatable\<close>
  flag is true exactly when its tag is \<open>li\<close>, or at least two element children of \<open>p\<close>
  with the tag name of \<open>n\<close> (\<open>n\<close> itself among them) have the same set of classes as
  \<open>n\<close>, or its tag is one of \<open>span\<close>, \<open>a\<close>, \<open>button\<close>, \<open>div\<close>, \<open>article\<close>,
  \<open>section\<close> and the tag of \<open>p\<close> is one of \<open>ul\<close>, \<open>ol\<close>, \<open>nav\<close>, \<open>menu\<close>.
\<close>

theorem repeatable_classification:
  assumes "domTokensOk (parsedBody parser html)" and "i < length (parseHTMLToSchema parser html)"
  shows "\<exists>p n. documentOrder (parsedBody parser html) ! i = (Some p, n) \<and> n \<in> set (elementChildren p)
           \<and> el_tag (parseHTMLToSchema parser html ! i) = toLowerCase (tagName n)
           \<and> (el_isRepeatable (parseHTMLToSchema parser html ! i) \<longleftrightarrow>
                el_tag (parseHTMLToSchema parser html ! i) = ''li''
                \<or> 2 \<le> length (filter (\<lambda>c. tagName c = tagName n
                                          \<and> set (classList c) = set (classList n))
                                  (elementChildren p))
                \<or> (el_tag (parseHTMLToSchema parser html ! i)
                      \<in> {''span'', ''a'', ''button'', ''div'', ''article'', ''section''}
                   \<and> toLowerCase (tagName p) \<in> {''ul'', ''ol'', ''nav'', ''menu''}))"
proof -
  let ?body = "parsedBody parser html"
  from assms(2) have i: "i < length (documentOrder ?body)"
    by (simp add: parseHTMLToSchema_def length_extractBody)
  from documentOrder_parents [OF assms(1) i] obtain p n where
    pn: "documentOrder ?body ! i = (Some p, n)" and mem: "n \<in> set (elementChildren p)"
    and ok: "\<forall>c\<in>set (elementChildren p). tokensOk c"
    by blast
  from extracted_fields(1,3) [OF i] pn
  have tag: "el_tag (extractBody ?body ! i) = toLowerCase (tagName n)"
    and rep: "el_isRepeatable (extractBody ?body ! i) = isRepeatableElement (Some p) n"
    by simp_all
  show ?thesis
    unfolding parseHTMLToSchema_def
    using pn mem tag rep isRepeatableElement_iff [OF ok mem] by simp
qed

theorem repeatable_classification_witness:
  "domTokensOk exampleBody
   \<and> 1 < length (parseHTMLToSchema (\<lambda>html. exampleBody) (Html exampleMarkup))
   \<and> (\<exists>p n. documentOrder exampleBody ! 1 = (Some p, n) \<and> n \<in> set (elementChildren p)
          \<and> el_tag (parseHTMLToSchema (\<lambda>html. exampleBody) (Html exampleMarkup) ! 1) = toLowerCase (tagName n)
          \<and> (el_isRepeatable (parseHTMLToSchema (\<lambda>html. exampleBody) (Html exampleMarkup) ! 1) \<longleftrightarrow>
                el_tag (parseHTMLToSchema (\<lambda>html. exampleBody) (Html exampleMarkup) ! 1) = ''li''
                \<or> 2 \<le> length (filter (\<lambda>c. tagName c = tagName n
                                          \<and> set (classList c) = set (classList n))
                                  (elementChildren p))
                \<or> (el_tag (parseHTMLToSchema (\<lambda>html. exampleBody) (Html exampleMarkup) ! 1)
                      \<in> {''span'', ''a'', ''button'', ''div'', ''article'', ''section''}
                   \<and> toLowerCase (tagName p) \<in> {''ul'', ''ol'', ''nav'', ''menu''})))
   \<and> map el_tag (parseHTMLToSchema (\<lambda>html. exampleBody) (Html exampleMarkup)) =
       [''div'', ''a'', ''a'', ''a'', ''ul'', ''li'']
   \<and> map el_classes (parseHTMLToSchema (\<lambda>html. exampleBody) (Html exampleMarkup)) =
       [[], [''x'', ''y''], [''y'', ''x''], [''z''], [], []]
   \<and> map el_isRepeatable (parseHTMLToSchema (\<lambda>html. exampleBody) (Html exampleMarkup)) =
       [False, True, True, False, False, True]"
proof -
  have 1: "1 < length (parseHTMLToSchema (\<lambda>html. exampleBody) (Html exampleMarkup))"
    by (simp add: parseHTMLToSchema_def parsedBody_def extractBody_exampleBody)
  have d: "domTokensOk (parsedBody (\<lambda>html. exampleBody) (Html exampleMarkup))"
    unfolding parsedBody_exampleBody by (rule domTokensOk_exampleBody)
  from repeatable_classification [of "\<lambda>html. exampleBody" "Html exampleMarkup" 1, OF d 1]
       domTokensOk_exampleBody 1
  show ?thesis
    by (simp add: parseHTMLToSchema_def parsedBody_def extractBody_exampleBody)
qed

section \<open>Extraction order\<close>

text \<open>
  Claim C5. For any markup, with \<open>N\<close> the number of elements below the body of the
  parsed document, the extractor returns \<open>N\<close> records; the ids are \<open>element-0\<close> to
  \<open>element-(N-1)\<close> in this order; the record at position \<open>i\<close> is the record of the
  \<open>i\<close>-th element in depth-first pre-order; and its \<open>children\<close> field lists the ids of
  the positions of that element's direct element children, in document order.
\<close>

theorem extraction_order:
  "length (parseHTMLToSchema parser html) = length (documentOrder (parsedBody parser html))
   \<and> length (documentOrder (parsedBody parser html)) =
       sum_list (map countElements (elementChildren (parsedBody parser html)))
   \<and> map el_id (parseHTMLToSchema parser html) =
       map (\<lambda>i. ''element-'' @ string_of_nat i) [0..<length (documentOrder (parsedBody parser html))]
   \<and> (\<forall>i<length (documentOrder (parsedBody parser html)).
         recordFor i (documentOrder (parsedBody parser html) ! i) (parseHTMLToSchema parser html ! i)
         \<and> el_tag (parseHTMLToSchema parser html ! i) =
             toLowerCase (tagName (snd (documentOrder (parsedBody parser html) ! i)))
         \<and> el_children (parseHTMLToSchema parser html ! i) =
             map (\<lambda>j. ''element-'' @ string_of_nat j) (childPositions (documentOrder (parsedBody parser html)) i)
         \<and> map (\<lambda>j. snd (documentOrder (parsedBody parser html) ! j))
               (childPositions (documentOrder (parsedBody parser html)) i) =
             elementChildren (snd (documentOrder (parsedBody parser html) ! i))
         \<and> sorted_wrt (<) (childPositions (documentOrder (parsedBody parser html)) i))"
  unfolding parseHTMLToSchema_def
  by (intro conjI allI impI length_extractBody length_documentOrder extracted_ids
        extracted_record extracted_fields(1) extracted_children childPositions_nodes(1))
     (assumption | unfold childPositions_def, rule sorted_childOffsets)+

theorem extraction_order_witness:
  "length (parseHTMLToSchema (\<lambda>html. exampleBody) (Html exampleMarkup)) = 6
   \<and> sum_list (map countElements (elementChildren exampleBody)) = 6
   \<and> map el_id (parseHTMLToSchema (\<lambda>html. exampleBody) (Html exampleMarkup)) =
       [''element-0'', ''element-1'', ''element-2'', ''element-3'', ''element-4'', ''element-5'']
   \<and> el_tag (parseHTMLToSchema (\<lambda>html. exampleBody) (Html exampleMarkup) ! 0) = ''div''
   \<and> el_children (parseHTMLToSchema (\<lambda>html. exampleBody) (Html exampleMarkup) ! 0) =
       [''element-1'', ''element-2'', ''element-3'']
   \<and> map (\<lambda>j. tagName (snd (documentOrder exampleBody ! j)))
         (childPositions (documentOrder exampleBody) 0) = [''A'', ''A'', ''A'']"
proof -
  note T = extraction_order [of "\<lambda>html. exampleBody" "Html exampleMarkup",
      unfolded parsedBody_exampleBody]
  have 0: "0 < length (documentOrder exampleBody)"
    by (simp add: length_documentOrder_exampleBody)
  from T have len: "length (parseHTMLToSchema (\<lambda>html. exampleBody) (Html exampleMarkup)) = 6"
    and cnt: "sum_list (map countElements (elementChildren exampleBody)) = 6"
    by (simp_all add: length_documentOrder_exampleBody)
  from T have "map el_id (parseHTMLToSchema (\<lambda>html. exampleBody) (Html exampleMarkup)) =
      map (\<lambda>i. ''element-'' @ string_of_nat i) [0..<6]"
    by (simp add: length_documentOrder_exampleBody)
  then have ids: "map el_id (parseHTMLToSchema (\<lambda>html. exampleBody) (Html exampleMarkup)) =
       [''element-0'', ''element-1'', ''element-2'', ''element-3'', ''element-4'', ''element-5'']"
    by (simp add: upt_rec string_of_nat.simps digit_char_def char_of_def bit_Suc_0_iff)
  from T 0 have tag: "el_tag (parseHTMLToSchema (\<lambda>html. exampleBody) (Html exampleMarkup) ! 0) =
      toLowerCase (tagName (snd (documentOrder exampleBody ! 0)))"
    and ch: "el_children (parseHTMLToSchema (\<lambda>html. exampleBody) (Html exampleMarkup) ! 0) =
      map (\<lambda>j. ''element-'' @ string_of_nat j) (childPositions (documentOrder exampleBody) 0)"
    and nodes: "map (\<lambda>j. snd (documentOrder exampleBody ! j))
        (childPositions (documentOrder exampleBody) 0) =
      elementChildren (snd (documentOrder exampleBody ! 0))"
    by blast+
  have tag': "el_tag (parseHTMLToSchema (\<lambda>html. exampleBody) (Html exampleMarkup) ! 0) = ''div''"
    unfolding tag
    by (simp add: documentOrder_def exampleBody_def toLowerCase_def lower_char_def
          char_of_def bit_Suc_0_iff)
  have ch': "el_children (parseHTMLToSchema (\<lambda>html. exampleBody) (Html exampleMarkup) ! 0) =
       [''element-1'', ''element-2'', ''element-3'']"
    unfolding ch childPositions_exampleBody
    by (simp add: string_of_nat.simps digit_char_def char_of_def bit_Suc_0_iff)
  have "map (\<lambda>j. tagName (snd (documentOrder exampleBody ! j)))
         (childPositions (documentOrder exampleBody) 0) =
        map tagName (elementChildren (snd (documentOrder exampleBody ! 0)))"
    using arg_cong [OF nodes, of "map tagName"] by (simp add: comp_def)
  also have "\<dots> = [''A'', ''A'', ''A'']"
    by (simp add: documentOrder_def exampleBody_def)
  finally show ?thesis using len cnt ids tag' ch' by simp
qed

section \<open>Invalid tags\<close>



section \<open>Attribute names\<close>


section \<open>Field projection\<close>

text \<open>
  Claim C8. \<open>generateFormFields\<close> returns, in this order: the field \<open>tag\<close>, read-only,
  with the record's tag; the field \<open>text\<close> with the text, when the record defines one; the
  field \<open>classes\<close> with the classes joined by a single space; then one field per attribute
  entry, in the order of the entries, named \<open>attr_\<close> followed by the key, with the entry's
  value. No field but the first is marked read-only. For classes \<open>a\<close>, \<open>b\<close> and attributes
  \<open>href\<close>, \<open>id\<close> the names are \<open>tag\<close>, \<open>text\<close>, \<open>classes\<close>, \<open>attr_href\<close>, \<open>attr_id\<close>.
\<close>

theorem generateFormFields_order:
  "map field_name (generateFormFields e) =
     ''tag'' # (case el_text e of None \<Rightarrow> [] | Some t \<Rightarrow> [''text''])
       @ ''classes'' # map (\<lambda>(k, v). ''attr_'' @ k) (el_attributes e)
   \<and> map field_value (generateFormFields e) =
     el_tag e # (case el_text e of None \<Rightarrow> [] | Some t \<Rightarrow> [t])
       @ join '' '' (el_classes e) # map snd (el_attributes e)
   \<and> map field_readonly (generateFormFields e) =
     Some True # replicate (length (generateFormFields e) - 1) None
   \<and> map field_name (generateFormFields
         (e\<lparr>el_text := Some t, el_classes := [''a'', ''b''],
            el_attributes := [(''href'', ''#''), (''id'', ''x'')]\<rparr>)) =
       [''tag'', ''text'', ''classes'', ''attr_href'', ''attr_id'']
   \<and> map field_value (generateFormFields
         (e\<lparr>el_text := Some t, el_classes := [''a'', ''b''],
            el_attributes := [(''href'', ''#''), (''id'', ''x'')]\<rparr>)) =
       [el_tag e, t, ''a b'', ''#'', ''x'']"
proof -
  have names: "map field_name (map attrField xs) = map (\<lambda>(k, v). ''attr_'' @ k) xs" for xs
    by (induction xs) (auto simp: attrField_def)
  have vals: "map field_value (map attrField xs) = map snd xs" for xs
    by (induction xs) (auto simp: attrField_def)
  have ro: "map field_readonly (map attrField xs) = replicate (length xs) None" for xs
    by (induction xs) (auto simp: attrField_def)
  show ?thesis
    unfolding generateFormFields_closed
    by (cases "el_text e")
       (simp_all add: names vals ro tagField_def textField_def classesField_def attrField_def
          del: map_map)
qed

section \<open>Termination of the serializer\<close>

text \<open>
  Claim C9. \<open>buildElement\<close> follows the ids in \<open>children\<close> with no check for cycles.
  When the reference graph of the collection is acyclic, both copies of \<open>schemaToHTML\<close>
  return: there is a number of nested calls from which on each returns, always with the
  same output.
\<close>

theorem schemaToHTML_returns_when_acyclic:
  assumes "acyclic (childEdges els)"
  shows "\<exists>D out out'. \<forall>depth\<ge>D.
           schemaToHTML depth (Some els) = Some out
           \<and> schemaToHTML_plain depth (Some els) = Some out'"
proof -
  obtain D1 out where 1:
    "\<forall>depth\<ge>D1. mapJoin (\<lambda>el. buildElement depth els (el_id el)) [CHR 0x0A] (rootElements els)
                    = Some out"
    using roots_return [of "\<lambda>d. buildElement d els" "[CHR 0x0A]" "rootElements els"]
          buildElement_Suc buildElement_returns [OF assms]
    by blast
  obtain D2 out' where 2:
    "\<forall>depth\<ge>D2.
        mapJoin (\<lambda>el. buildElement_plain depth els (el_id el)) [CHR 0x0A] (rootElements els)
        = Some out'"
    using roots_return [of "\<lambda>d. buildElement_plain d els" "[CHR 0x0A]" "rootElements els"]
          buildElement_plain_Suc buildElement_plain_returns [OF assms]
    by blast
  show ?thesis
  proof (cases "els = []")
    case True
    then have "\<forall>depth\<ge>0. schemaToHTML depth (Some els) = Some []
                 \<and> schemaToHTML_plain depth (Some els) = Some []"
      by (simp add: schemaToHTML_def schemaToHTML_plain_def)
    then show ?thesis by blast
  next
    case False
    have "schemaToHTML depth (Some els) = Some out
          \<and> schemaToHTML_plain depth (Some els) = Some out'" if "max D1 D2 \<le> depth" for depth
      using that 1 2 False by (simp add: schemaToHTML_def schemaToHTML_plain_def)
    then show ?thesis by blast
  qed
qed

theorem schemaToHTML_returns_when_acyclic_witness:
  "acyclic (childEdges guardRecords)
   \<and> (\<exists>D out out'. \<forall>depth\<ge>D.
           schemaToHTML depth (Some guardRecords) = Some out
           \<and> schemaToHTML_plain depth (Some guardRecords) = Some out')
   \<and> schemaToHTML 2 (Some guardRecords) = Some ''<div><span>a</span><span>d</span></div>''"
  using schemaToHTML_returns_when_acyclic [OF acyclic_guardRecords] acyclic_guardRecords
        schemaToHTML_guardRecords
  by blast

section \<open>References between extracted records\<close>

text \<open>
  Claim C10. In every collection that the extractor returns, each id in a record's
  \<open>children\<close> is the id of a record at a strictly later position (so no reference
  dangles); the ids of the records are distinct; no id occurs twice in the \<open>children\<close>
  fields of the whole collection; and the reference graph is acyclic.
\<close>

theorem extractor_forest_invariant:
  "(\<forall>i<length (parseHTMLToSchema parser html).
      \<forall>c\<in>set (el_children (parseHTMLToSchema parser html ! i)).
        \<exists>j. i < j \<and> j < length (parseHTMLToSchema parser html)
            \<and> el_id (parseHTMLToSchema parser html ! j) = c)
   \<and> distinct (map el_id (parseHTMLToSchema parser html))
   \<and> distinct (concat (map el_children (parseHTMLToSchema parser html)))
   \<and> acyclic (childEdges (parseHTMLToSchema parser html))"
  unfolding parseHTMLToSchema_def
  using extracted_children_later distinct_extracted_ids distinct_extracted_children
        acyclic_extracted
  by blast

theorem extractor_forest_invariant_witness:
  "0 < length (parseHTMLToSchema (\<lambda>html. exampleBody) (Html exampleMarkup))
   \<and> ''element-2'' \<in> set (el_children (parseHTMLToSchema (\<lambda>html. exampleBody) (Html exampleMarkup) ! 0))
   \<and> (\<exists>j. 0 < j \<and> j < length (parseHTMLToSchema (\<lambda>html. exampleBody) (Html exampleMarkup))
          \<and> el_id (parseHTMLToSchema (\<lambda>html. exampleBody) (Html exampleMarkup) ! j) = ''element-2'')
   \<and> distinct (map el_id (parseHTMLToSchema (\<lambda>html. exampleBody) (Html exampleMarkup)))
   \<and> distinct (concat (map el_children (parseHTMLToSchema (\<lambda>html. exampleBody) (Html exampleMarkup))))
   \<and> acyclic (childEdges (parseHTMLToSchema (\<lambda>html. exampleBody) (Html exampleMarkup)))"
proof -
  note T = extractor_forest_invariant [of "\<lambda>html. exampleBody" "Html exampleMarkup"]
  have 0: "0 < length (parseHTMLToSchema (\<lambda>html. exampleBody) (Html exampleMarkup))"
    by (simp add: parseHTMLToSchema_def parsedBody_def extractBody_exampleBody)
  have c: "''element-2'' \<in> set (el_children (parseHTMLToSchema (\<lambda>html. exampleBody) (Html exampleMarkup) ! 0))"
    by (simp add: parseHTMLToSchema_def parsedBody_def extractBody_exampleBody)
  from T 0 c show ?thesis by blast
qed

end
